theory Spec2Isabelle
  imports Main "HOL-Library.Char_ord" "HOL-Library.List_Lexorder" "HOL-Library.Product_Lexorder"
begin

section \<open>Exceptions and the observable world\<close>

text \<open>
  The exceptions the engine raises or lets through.  \<open>AttributeError\<close> and \<open>TypeError\<close> are
  Python's own (a failed attribute lookup, a call with a missing positional argument);
  \<open>ChangeSchemaMissing\<close> is declared in \<^verbatim>\<open>exceptions.py\<close> as a subclass of
  \<open>DatabaseError\<close>; \<open>OtherError\<close> stands for any exception raised by user code.
\<close>

datatype exn =
    AttributeError string
  | TypeError string
  | KeyError
  | IndexError
  | ValueError
  | NotImplementedError
  | DatabaseError
  | ChangeSchemaMissing
  | InvalidChangePlan
  | InconsistentChangeHistory
  | CircularDependencyError
  | NodeNotFoundError
  | OtherError string

text \<open>\<^verbatim>\<open>except DatabaseError\<close> also catches the subclass.\<close>

fun is_DatabaseError :: "exn \<Rightarrow> bool" where
  "is_DatabaseError DatabaseError = True"
| "is_DatabaseError ChangeSchemaMissing = True"
| "is_DatabaseError _ = False"

type_synonym key = "string \<times> string"

datatype event =
    render_start
  | render_success
  | apply_start key bool
  | apply_success key bool
  | unapply_start key bool
  | unapply_success key bool

text \<open>
  What the engine reads and writes outside itself: the tables the connection's
  introspection lists, the rows \<open>(app, name)\<close> of the changelog table, the exception (if
  any) that entering and leaving a schema-editor context raises, the SQL statements
  handed to \<^verbatim>\<open>schema_editor.execute\<close> and run, the statements the database rejects
  with a \<open>DatabaseError\<close>, the progress events emitted, a counter of
  the \<^verbatim>\<open>database_forwards\<close>/\<^verbatim>\<open>database_backwards\<close> invocations, and the
  backend's \<^verbatim>\<open>prepare_sql_script\<close>, which splits a script into statements.
\<close>

record world =
  table_names :: "string list"
  rows :: "key list"
  editor_enter :: "exn option"
  editor_exit :: "exn option"
  executed :: "string list"
  execute_fails :: "string \<Rightarrow> bool"
  progress :: "event list"
  backend_calls :: nat
  prepare_sql_script :: "string \<Rightarrow> string list"

text \<open>
  Python's \<^verbatim>\<open>with ctx as v: body\<close>: an exception on entry skips the body; an
  exception raised on exit replaces the body's outcome.
\<close>

definition with_schema_editor ::
  "world \<Rightarrow> (world \<Rightarrow> (exn + 'a) \<times> world) \<Rightarrow> (exn + 'a) \<times> world" where
  "with_schema_editor w body =
     (case editor_enter w of
        Some e \<Rightarrow> (Inl e, w)
      | None \<Rightarrow>
          (case body w of
             (r, w') \<Rightarrow>
               (case editor_exit w of
                  Some e \<Rightarrow> (Inl e, w')
                | None \<Rightarrow> (r, w'))))"

section \<open>operations.py\<close>

text \<open>
  The \<^verbatim>\<open>sql\<close> argument of \<^verbatim>\<open>RunSQL\<close>: a script (a string), or a list whose items are
  a statement, a pair of statement and parameters, or a tuple of another length.
\<close>

datatype sql_item = Statement string | Pair string "string list" | Tuple nat

datatype sqls = Script string | Items "sql_item list"

text \<open>
  An operation.  The state operations of \<^verbatim>\<open>RunSQL\<close> are named by strings; the callables of
  \<^verbatim>\<open>RunPython\<close> are opaque, and only whether they raise is observed.
\<close>

datatype operation =
    RunSQL (sql: sqls) (reverse_sql: "sqls option") (state_operations: "string list")
  | RunPython (code: "exn option") (reverse_code: "exn option option")

definition execute :: "string \<Rightarrow> world \<Rightarrow> (exn + unit) \<times> world" where
  "execute s w =
     (if execute_fails w s then (Inl DatabaseError, w)
      else (Inr (), w\<lparr>executed := executed w @ [s]\<rparr>))"

fun run_items :: "sql_item list \<Rightarrow> world \<Rightarrow> (exn + unit) \<times> world" where
  "run_items [] w = (Inr (), w)"
| "run_items (Statement s # rest) w =
     (case execute s w of (Inl e, w') \<Rightarrow> (Inl e, w') | (Inr _, w') \<Rightarrow> run_items rest w')"
| "run_items (Pair s ps # rest) w =
     (case execute s w of (Inl e, w') \<Rightarrow> (Inl e, w') | (Inr _, w') \<Rightarrow> run_items rest w')"
| "run_items (Tuple n # rest) w = (Inl ValueError, w)"

fun run_statements :: "string list \<Rightarrow> world \<Rightarrow> (exn + unit) \<times> world" where
  "run_statements [] w = (Inr (), w)"
| "run_statements (statement # rest) w =
     (case execute statement w of
        (Inl e, w') \<Rightarrow> (Inl e, w')
      | (Inr _, w') \<Rightarrow> run_statements rest w')"

text \<open>\<^verbatim>\<open>RunSQL.noop\<close> is the empty string.\<close>

definition noop :: string where
  "noop = []"

definition run_sql_body :: "sqls \<Rightarrow> world \<Rightarrow> (exn + unit) \<times> world" where
  "run_sql_body s w =
     with_schema_editor w (\<lambda>w1.
       (case s of
          Items xs \<Rightarrow> run_items xs w1
        | Script str \<Rightarrow>
            (if str \<noteq> noop
             then run_statements (prepare_sql_script w1 str) w1
             else (Inr (), w1))))"

text \<open>
  \<^verbatim>\<open>def _run_sql(self, schema_editor, sqls)\<close> has two required positional parameters
  after \<open>self\<close>.  The model takes the positional arguments of the call as a list and
  binds them as Python does: any other number of arguments is a \<open>TypeError\<close> raised
  before the body runs.  The first parameter is rebound by the \<^verbatim>\<open>with\<close> statement of
  the body before it is read, so its value plays no part.
\<close>

definition run_sql :: "sqls list \<Rightarrow> world \<Rightarrow> (exn + unit) \<times> world" where
  "run_sql args w =
     (case args of
        [schema_editor, s] \<Rightarrow> run_sql_body s w
      | _ \<Rightarrow> (Inl (TypeError ''_run_sql''), w))"

text \<open>Every invocation of a database-level operation is counted.\<close>

definition count_call :: "world \<Rightarrow> world" where
  "count_call w = w\<lparr>backend_calls := Suc (backend_calls w)\<rparr>"

fun database_forwards :: "operation \<Rightarrow> world \<Rightarrow> (exn + unit) \<times> world" where
  "database_forwards (RunSQL s r so) w = run_sql [s] (count_call w)"
| "database_forwards (RunPython c rc) w =
     (case c of Some e \<Rightarrow> (Inl e, count_call w) | None \<Rightarrow> (Inr (), count_call w))"

fun database_backwards :: "operation \<Rightarrow> world \<Rightarrow> (exn + unit) \<times> world" where
  "database_backwards (RunSQL s r so) w =
     (case r of
        None \<Rightarrow> (Inl NotImplementedError, count_call w)
      | Some rs \<Rightarrow> run_sql [rs] (count_call w))"
| "database_backwards (RunPython c rc) w =
     (case rc of
        None \<Rightarrow> (Inl NotImplementedError, count_call w)
      | Some None \<Rightarrow> (Inr (), count_call w)
      | Some (Some e) \<Rightarrow> (Inl e, count_call w))"

section \<open>recorder.py\<close>

text \<open>
  \<^verbatim>\<open>ChangeLog._meta.db_table\<close>: the model \<^verbatim>\<open>ChangeLog\<close> of the application
  \<^verbatim>\<open>exo_changelog\<close> declares no table name, so Django derives this one.
\<close>

definition db_table :: string where
  "db_table = ''exo_changelog_changelog''"

text \<open>
  The attributes an instance of \<^verbatim>\<open>ChangeRecorder\<close> has: \<open>connection\<close>, set by
  \<^verbatim>\<open>__init__\<close>, and the names the class body defines.  Looking up any other name raises
  \<open>AttributeError\<close>.
\<close>

definition ChangeRecorder_attributes :: "string list" where
  "ChangeRecorder_attributes =
     [''connection'', ''__init__'', ''change_qs'', ''ensure_schema'', ''applied_changes'',
      ''record_applied'', ''record_unapplied'', ''flush'']"

definition ChangeRecorder_getattr :: "string \<Rightarrow> exn + unit" where
  "ChangeRecorder_getattr a =
     (if a \<in> set ChangeRecorder_attributes then Inr () else Inl (AttributeError a))"

definition create_model :: "world \<Rightarrow> world" where
  "create_model w = w\<lparr>table_names := table_names w @ [db_table]\<rparr>"

definition ensure_schema :: "world \<Rightarrow> (exn + unit) \<times> world" where
  "ensure_schema w =
     (if db_table \<in> set (table_names w) then (Inr (), w)
      else
        (case with_schema_editor w (\<lambda>w1.
                (case ChangeRecorder_getattr ''Migration'' of
                   Inl e \<Rightarrow> (Inl e, w1)
                 | Inr _ \<Rightarrow> (Inr (), create_model w1))) of
           (Inl e, w') \<Rightarrow>
             (if is_DatabaseError e then (Inl ChangeSchemaMissing, w') else (Inl e, w'))
         | (Inr u, w') \<Rightarrow> (Inr u, w')))"

definition applied_changes :: "world \<Rightarrow> (exn + key set) \<times> world" where
  "applied_changes w =
     (case ensure_schema w of
        (Inl e, w') \<Rightarrow> (Inl e, w')
      | (Inr _, w') \<Rightarrow> (Inr (set (rows w')), w'))"

definition record_applied :: "string \<Rightarrow> string \<Rightarrow> world \<Rightarrow> (exn + unit) \<times> world" where
  "record_applied app nm w =
     (case ensure_schema w of
        (Inl e, w') \<Rightarrow> (Inl e, w')
      | (Inr _, w') \<Rightarrow> (Inr (), w'\<lparr>rows := rows w' @ [(app, nm)]\<rparr>))"

definition record_unapplied :: "string \<Rightarrow> string \<Rightarrow> world \<Rightarrow> (exn + unit) \<times> world" where
  "record_unapplied app nm w =
     (case ensure_schema w of
        (Inl e, w') \<Rightarrow> (Inl e, w')
      | (Inr _, w') \<Rightarrow> (Inr (), w'\<lparr>rows := filter (\<lambda>r. r \<noteq> (app, nm)) (rows w')\<rparr>))"

section \<open>change.py\<close>

record change =
  name :: string
  app_label :: string
  description :: string
  operations :: "operation list"
  dependencies :: "key list"

text \<open>\<^verbatim>\<open>__eq__\<close> and \<^verbatim>\<open>__hash__\<close> of a change look at its label and name only.\<close>

definition key_of :: "change \<Rightarrow> key" where
  "key_of c = (app_label c, name c)"

text \<open>
  A project state is Django's; the model keeps the state operations applied to it, in
  order and with the label they ran under, and whether its \<open>apps\<close> have been rendered.
  A clone is an equal value.
\<close>

record project_state =
  real_apps :: "string list"
  applied_ops :: "(string \<times> string) list"
  apps_rendered :: bool

definition clone :: "project_state \<Rightarrow> project_state" where
  "clone st = st"

fun state_forwards :: "operation \<Rightarrow> string \<Rightarrow> project_state \<Rightarrow> project_state" where
  "state_forwards (RunSQL s r so) app st =
     st\<lparr>applied_ops := applied_ops st @ map (\<lambda>state_operation. (app, state_operation)) so\<rparr>"
| "state_forwards (RunPython c rc) app st = st"

definition mutate_state :: "change \<Rightarrow> project_state \<Rightarrow> bool \<Rightarrow> project_state" where
  "mutate_state c st preserve =
     fold (\<lambda>operation new_state. state_forwards operation (app_label c) new_state)
       (operations c) (if preserve then clone st else st)"

text \<open>
  \<^verbatim>\<open>Change.apply\<close>: the operations run forwards in order, the first exception ending
  the run.  The clone of the state taken before each operation is read by neither
  operation.
\<close>

fun apply_operations :: "operation list \<Rightarrow> world \<Rightarrow> (exn + unit) \<times> world" where
  "apply_operations [] w = (Inr (), w)"
| "apply_operations (operation # rest) w =
     (case database_forwards operation w of
        (Inl e, w') \<Rightarrow> (Inl e, w')
      | (Inr _, w') \<Rightarrow> apply_operations rest w')"

definition Change_apply :: "change \<Rightarrow> project_state \<Rightarrow> world \<Rightarrow> (exn + project_state) \<times> world" where
  "Change_apply c st w =
     (case apply_operations (operations c) w of
        (Inl e, w') \<Rightarrow> (Inl e, w')
      | (Inr _, w') \<Rightarrow> (Inr st, w'))"

text \<open>
  The data attributes of a change (set by the class body and by \<^verbatim>\<open>__init__\<close>) and its
  methods that take a project state and one more argument.  The class defines neither
  \<open>atomic\<close> nor \<open>unapply\<close>, and the change files the writer's template produces add only
  \<open>initial\<close>, \<open>dependencies\<close> and \<open>operations\<close>.
\<close>

definition Change_data_attributes :: "string list" where
  "Change_data_attributes =
     [''operations'', ''dependencies'', ''run_before'', ''initial'', ''name'', ''app_label'',
      ''description'']"

definition Change_methods ::
  "(string \<times> (change \<Rightarrow> project_state \<Rightarrow> world \<Rightarrow> (exn + project_state) \<times> world)) list" where
  "Change_methods = [(''apply'', Change_apply)]"

section \<open>The dependency graph\<close>

text \<open>
  Modelled from the spec: \<^verbatim>\<open>graph.py\<close> (the class \<^verbatim>\<open>ChangeGraph\<close>) is not among the
  sources.  The spec's data model: a mapping from key to change unit (\<open>nodes\<close>), plus
  for each key a parent set and a child set.  A graph is the list of its entries, a key
  standing for its first entry, as a dictionary has one value per key; the parent and
  child sets are listed in iteration order.
\<close>

record node =
  node_change :: change
  parents :: "key list"
  children :: "key list"

type_synonym graph = "(key \<times> node) list"

text \<open>Modelled from the spec: \<^verbatim>\<open>graph.node_map\<close>, the adjacency of each key.\<close>

definition node_map :: "graph \<Rightarrow> key \<rightharpoonup> node" where
  "node_map g = map_of g"

text \<open>Modelled from the spec: \<^verbatim>\<open>graph.nodes\<close>, the change unit of each key.\<close>

definition nodes :: "graph \<Rightarrow> key \<rightharpoonup> change" where
  "nodes g = map_option node_change \<circ> map_of g"

text \<open>
  Modelled from the spec: \<^verbatim>\<open>root_nodes(namespace=None)\<close> is the keys that start their
  namespace's chain, optionally filtered by namespace, in lexicographic order of the
  keys; \<^verbatim>\<open>leaf_nodes\<close> is symmetric: the keys that are the current head of their
  namespace's chain.  Roots and leaves are taken per namespace, as the glossary of the
  spec and the callers in \<^verbatim>\<open>autodetector.py\<close>, \<^verbatim>\<open>loader.py\<close> and \<^verbatim>\<open>applychange.py\<close>
  have them: a root has no parent in its own namespace, a leaf no child in its own
  namespace; an edge to another namespace makes a key neither less a root nor less a
  leaf.
\<close>

definition root_nodes :: "graph \<Rightarrow> string option \<Rightarrow> key list" where
  "root_nodes g namespace =
     sort (filter (\<lambda>k. (case node_map g k of
                           None \<Rightarrow> False
                         | Some n \<Rightarrow> \<forall>p \<in> set (parents n). fst p \<noteq> fst k)
                       \<and> (case namespace of None \<Rightarrow> True | Some a \<Rightarrow> fst k = a))
             (remdups (map fst g)))"

definition leaf_nodes :: "graph \<Rightarrow> string option \<Rightarrow> key list" where
  "leaf_nodes g namespace =
     sort (filter (\<lambda>k. (case node_map g k of
                           None \<Rightarrow> False
                         | Some n \<Rightarrow> \<forall>c \<in> set (children n). fst c \<noteq> fst k)
                       \<and> (case namespace of None \<Rightarrow> True | Some a \<Rightarrow> fst k = a))
             (remdups (map fst g)))"

text \<open>
  Modelled from the spec: the traversal behind both plans is depth first with explicit
  cycle tracking; visiting a node already on the current path fails with
  \<open>CircularDependencyError\<close>, neighbours are visited in ascending key order, and a node
  comes after the nodes it was reached through.  A key the graph does not have is a
  \<open>NodeNotFoundError\<close>.
\<close>

function dfs :: "graph \<Rightarrow> (node \<Rightarrow> key list) \<Rightarrow> key list \<Rightarrow> key \<Rightarrow> exn + key list"
  and dfs_all :: "graph \<Rightarrow> (node \<Rightarrow> key list) \<Rightarrow> key list \<Rightarrow> key list \<Rightarrow> exn + key list" where
  "dfs g nxt path k =
     (if k \<in> set path then Inl CircularDependencyError
      else
        (case map_of g k of
           None \<Rightarrow> Inl NodeNotFoundError
         | Some n \<Rightarrow>
             (case dfs_all g nxt (k # path) (sort (nxt n)) of
                Inl e \<Rightarrow> Inl e
              | Inr ks \<Rightarrow> Inr (ks @ [k]))))"
| "dfs_all g nxt path [] = Inr []"
| "dfs_all g nxt path (c # cs) =
     (case dfs g nxt path c of
        Inl e \<Rightarrow> Inl e
      | Inr ks \<Rightarrow>
          (case dfs_all g nxt path cs of
             Inl e \<Rightarrow> Inl e
           | Inr ks' \<Rightarrow> Inr (ks @ ks')))"
  by pat_completeness auto
termination
proof (relation "inv_image (less_than <*lex*> less_than)
         (\<lambda>x. case x of
                 Inl (g, nxt, path, k) \<Rightarrow> (card (fst ` set g - set path), 0)
               | Inr (g, nxt, path, cs) \<Rightarrow> (card (fst ` set g - set path), Suc (length cs)))",
       goal_cases)
  case 1
  show ?case by (intro wf_inv_image wf_lex_prod wf_less_than)
next
  case (2 g nxt path k n)
  from 2(2) have "k \<in> fst ` set g"
    by (metis map_of_SomeD fst_conv image_eqI)
  with 2(1) have "card (fst ` set g - set (k # path)) < card (fst ` set g - set path)"
    by (intro psubset_card_mono) auto
  then show ?case by simp
next
  case 3
  show ?case by simp
next
  case 4
  show ?case by simp
qed

text \<open>A key is planned once, at its first place.\<close>

fun dedup :: "'a list \<Rightarrow> 'a list" where
  "dedup [] = []"
| "dedup (x # xs) = x # filter (\<lambda>y. y \<noteq> x) (dedup xs)"

text \<open>
  Modelled from the spec: \<^verbatim>\<open>forwards_plan(target_key)\<close> is the sequence of keys to apply
  to reach the target, parents before children, the target included.
\<close>

definition forwards_plan :: "graph \<Rightarrow> key \<Rightarrow> exn + key list" where
  "forwards_plan g target = map_sum id dedup (dfs g parents [] target)"

text \<open>
  Modelled from the spec: \<^verbatim>\<open>backwards_plan(target_key)\<close> is symmetric, over the
  children: the target and all its descendants, child first, in the order in which
  they are undone (the descendants before the target).
\<close>

definition backwards_plan :: "graph \<Rightarrow> key \<Rightarrow> exn + key list" where
  "backwards_plan g target = map_sum id dedup (dfs g children [] target)"

section \<open>loader.py\<close>

text \<open>
  What a loader holds once built: the graph, the applied changes read from the
  recorder at that moment, and the labels of the applications without changes.
\<close>

record loader =
  graph :: graph
  loader_applied_changes :: "key set"
  unchanged_apps :: "string list"




text \<open>
  \<^verbatim>\<open>detect_conflicts\<close>: \<open>seen_apps\<close> is a dictionary from label to a set of names,
  \<open>conflicting_apps\<close> a set of labels.
\<close>

fun detect_loop ::
  "key list \<Rightarrow> (string \<rightharpoonup> string set) \<times> string set \<Rightarrow> (string \<rightharpoonup> string set) \<times> string set" where
  "detect_loop [] s = s"
| "detect_loop ((app, change_name) # rest) (seen_apps, conflicting_apps) =
     detect_loop rest
       (seen_apps(app \<mapsto> insert change_name (case seen_apps app of None \<Rightarrow> {} | Some s \<Rightarrow> s)),
        if seen_apps app \<noteq> None then insert app conflicting_apps else conflicting_apps)"

definition detect_conflicts :: "loader \<Rightarrow> string \<rightharpoonup> string set" where
  "detect_conflicts l =
     (case detect_loop (leaf_nodes (graph l) None) (Map.empty, {}) of
        (seen_apps, conflicting_apps) \<Rightarrow>
          (\<lambda>app. if app \<in> conflicting_apps then seen_apps app else None))"

section \<open>executor.py\<close>

record executor =
  loader :: loader
  has_progress_callback :: bool

definition progress_callback :: "executor \<Rightarrow> event \<Rightarrow> world \<Rightarrow> world" where
  "progress_callback ex ev w =
     (if has_progress_callback ex then w\<lparr>progress := progress w @ [ev]\<rparr> else w)"

type_synonym target = "string \<times> string option"

type_synonym plan = "(change \<times> bool) list"

subsection \<open>\<^verbatim>\<open>change_plan\<close>\<close>

text \<open>
  The two inner loops over a plan of the graph: the state is the plan built so far and
  the working copy of the applied set.
\<close>

fun plan_backwards :: "graph \<Rightarrow> key list \<Rightarrow> plan \<times> key set \<Rightarrow> exn + plan \<times> key set" where
  "plan_backwards g [] s = Inr s"
| "plan_backwards g (k # ks) (plan, applied) =
     (if k \<in> applied
      then (case nodes g k of
              None \<Rightarrow> Inl KeyError
            | Some c \<Rightarrow> plan_backwards g ks (plan @ [(c, True)], applied - {k}))
      else plan_backwards g ks (plan, applied))"

fun plan_forwards :: "graph \<Rightarrow> key list \<Rightarrow> plan \<times> key set \<Rightarrow> exn + plan \<times> key set" where
  "plan_forwards g [] s = Inr s"
| "plan_forwards g (k # ks) (plan, applied) =
     (if k \<notin> applied
      then (case nodes g k of
              None \<Rightarrow> Inl KeyError
            | Some c \<Rightarrow> plan_forwards g ks (plan @ [(c, False)], insert k applied))
      else plan_forwards g ks (plan, applied))"

text \<open>The loop over roots, or over the children of the target, around the first.\<close>

fun backwards_from :: "graph \<Rightarrow> key list \<Rightarrow> plan \<times> key set \<Rightarrow> exn + plan \<times> key set" where
  "backwards_from g [] s = Inr s"
| "backwards_from g (n # ns) s =
     (case backwards_plan g n of
        Inl e \<Rightarrow> Inl e
      | Inr ks \<Rightarrow>
          (case plan_backwards g ks s of
             Inl e \<Rightarrow> Inl e
           | Inr s' \<Rightarrow> backwards_from g ns s'))"

text \<open>The body of the loop over the targets.\<close>

definition plan_target :: "graph \<Rightarrow> plan \<times> key set \<Rightarrow> target \<Rightarrow> exn + plan \<times> key set" where
  "plan_target g s target =
     (case snd target of
        None \<Rightarrow>
          backwards_from g (filter (\<lambda>root. fst root = fst target) (root_nodes g None)) s
      | Some nm \<Rightarrow>
          (if (fst target, nm) \<in> snd s
           then (case node_map g (fst target, nm) of
                   None \<Rightarrow> Inl KeyError
                 | Some nd \<Rightarrow>
                     backwards_from g
                       (sort (filter (\<lambda>n. fst n = fst target) (children nd))) s)
           else (case forwards_plan g (fst target, nm) of
                   Inl e \<Rightarrow> Inl e
                 | Inr ks \<Rightarrow> plan_forwards g ks s)))"

fun plan_targets :: "graph \<Rightarrow> target list \<Rightarrow> plan \<times> key set \<Rightarrow> exn + plan \<times> key set" where
  "plan_targets g [] s = Inr s"
| "plan_targets g (target # rest) s =
     (case plan_target g s target of
        Inl e \<Rightarrow> Inl e
      | Inr s' \<Rightarrow> plan_targets g rest s')"

definition change_plan :: "executor \<Rightarrow> target list \<Rightarrow> bool \<Rightarrow> exn + plan" where
  "change_plan ex targets clean_start =
     map_sum id fst
       (plan_targets (graph (loader ex)) targets
          ([], if clean_start then {} else loader_applied_changes (loader ex)))"

text \<open>The leaf nodes as targets, as \<^verbatim>\<open>change_plan(self.loader.graph.leaf_nodes(), ...)\<close> passes them.\<close>

definition leaf_targets :: "executor \<Rightarrow> target list" where
  "leaf_targets ex = map (\<lambda>(app, nm). (app, Some nm)) (leaf_nodes (graph (loader ex)) None)"

subsection \<open>Project states\<close>

text \<open>
  The set \<^verbatim>\<open>{nodes[key] for key in applied_changes if key in nodes}\<close>; its members are
  compared by label and name.
\<close>

definition applied_in_graph :: "executor \<Rightarrow> key set" where
  "applied_in_graph ex =
     (\<lambda>k. key_of (the (nodes (graph (loader ex)) k)))
       ` {k \<in> loader_applied_changes (loader ex). nodes (graph (loader ex)) k \<noteq> None}"

definition replay :: "key set \<Rightarrow> plan \<Rightarrow> project_state \<Rightarrow> project_state" where
  "replay applied full_plan st =
     fold (\<lambda>(c, _) s. if key_of c \<in> applied then mutate_state c s False else s) full_plan st"

definition create_project_state :: "executor \<Rightarrow> bool \<Rightarrow> exn + project_state" where
  "create_project_state ex with_applied_changes =
     (let state = \<lparr>real_apps = unchanged_apps (loader ex), applied_ops = [],
                   apps_rendered = False\<rparr>
      in if with_applied_changes
         then (case change_plan ex (leaf_targets ex) True of
                 Inl e \<Rightarrow> Inl e
               | Inr full_plan \<Rightarrow> Inr (replay (applied_in_graph ex) full_plan state))
         else Inr state)"

subsection \<open>\<^verbatim>\<open>apply_change\<close> and \<^verbatim>\<open>unapply_change\<close>\<close>

definition apply_change ::
  "executor \<Rightarrow> project_state \<Rightarrow> change \<Rightarrow> bool \<Rightarrow> world \<Rightarrow> (exn + project_state) \<times> world" where
  "apply_change ex state c fake w =
     (let w1 = progress_callback ex (apply_start (key_of c) fake) w
      in case (if \<not> fake then Change_apply c state w1 else (Inr state, w1)) of
           (Inl e, w2) \<Rightarrow> (Inl e, w2)
         | (Inr state', w2) \<Rightarrow>
             (case record_applied (app_label c) (name c) w2 of
                (Inl e, w3) \<Rightarrow> (Inl e, w3)
              | (Inr _, w3) \<Rightarrow>
                  (Inr state', progress_callback ex (apply_success (key_of c) fake) w3)))"

text \<open>
  Without \<open>fake\<close>, \<^verbatim>\<open>unapply_change\<close> first evaluates \<^verbatim>\<open>change.atomic\<close>, the argument of
  the schema editor, and inside the context looks up \<^verbatim>\<open>change.unapply\<close>.
\<close>

definition unapply_change ::
  "executor \<Rightarrow> project_state \<Rightarrow> change \<Rightarrow> bool \<Rightarrow> world \<Rightarrow> (exn + project_state) \<times> world" where
  "unapply_change ex state c fake w =
     (let w1 = progress_callback ex (unapply_start (key_of c) fake) w
      in case (if \<not> fake
               then (if ''atomic'' \<notin> set Change_data_attributes
                     then (Inl (AttributeError ''atomic''), w1)
                     else with_schema_editor w1 (\<lambda>w2.
                            (case map_of Change_methods ''unapply'' of
                               None \<Rightarrow> (Inl (AttributeError ''unapply''), w2)
                             | Some unapply \<Rightarrow> unapply c state w2)))
               else (Inr state, w1)) of
           (Inl e, w2) \<Rightarrow> (Inl e, w2)
         | (Inr state', w2) \<Rightarrow>
             (case record_unapplied (app_label c) (name c) w2 of
                (Inl e, w3) \<Rightarrow> (Inl e, w3)
              | (Inr _, w3) \<Rightarrow>
                  (Inr state', progress_callback ex (unapply_success (key_of c) fake) w3)))"

subsection \<open>Running a plan\<close>

fun forwards_loop ::
  "executor \<Rightarrow> bool \<Rightarrow> plan \<Rightarrow> key set \<Rightarrow> project_state \<Rightarrow> world
     \<Rightarrow> (exn + project_state) \<times> world" where
  "forwards_loop ex fake [] changes_to_run state w = (Inr state, w)"
| "forwards_loop ex fake ((c, b) # rest) changes_to_run state w =
     (if changes_to_run = {} then (Inr state, w)
      else if key_of c \<in> changes_to_run
      then (let w1 = (if \<not> apps_rendered state
                      then progress_callback ex render_success
                             (progress_callback ex render_start w)
                      else w)
            in case apply_change ex (state\<lparr>apps_rendered := True\<rparr>) c fake w1 of
                 (Inl e, w2) \<Rightarrow> (Inl e, w2)
               | (Inr state', w2) \<Rightarrow>
                   forwards_loop ex fake rest (changes_to_run - {key_of c}) state' w2)
      else forwards_loop ex fake rest changes_to_run state w)"

definition change_all_forwards ::
  "executor \<Rightarrow> project_state \<Rightarrow> plan \<Rightarrow> plan \<Rightarrow> bool \<Rightarrow> world
     \<Rightarrow> (exn + project_state) \<times> world" where
  "change_all_forwards ex state plan full_plan fake w =
     forwards_loop ex fake full_plan (key_of ` fst ` set plan) state w"

text \<open>
  The first pass of the backward run: the states before each change to unapply.  A state
  kept in \<open>states\<close> is never mutated afterwards in this pass, since the run goes on
  with a clone of it.
\<close>

fun states_loop ::
  "key set \<Rightarrow> plan \<Rightarrow> key set \<Rightarrow> (key \<rightharpoonup> project_state) \<Rightarrow> project_state
     \<Rightarrow> (key \<rightharpoonup> project_state)" where
  "states_loop applied [] changes_to_run states state = states"
| "states_loop applied ((c, b) # rest) changes_to_run states state =
     (if changes_to_run = {} then states
      else if key_of c \<in> changes_to_run
      then (let state1 = state\<lparr>apps_rendered := True\<rparr>
            in states_loop applied rest (changes_to_run - {key_of c})
                 (states(key_of c \<mapsto> state1)) (mutate_state c state1 True))
      else if key_of c \<in> applied
      then states_loop applied rest changes_to_run states (mutate_state c state False)
      else states_loop applied rest changes_to_run states state)"

text \<open>The second pass; \<^verbatim>\<open>set.remove\<close> of a missing element is a \<open>KeyError\<close>.\<close>

fun unapply_loop ::
  "executor \<Rightarrow> bool \<Rightarrow> (key \<rightharpoonup> project_state) \<Rightarrow> plan \<Rightarrow> key set \<Rightarrow> world
     \<Rightarrow> (exn + key set) \<times> world" where
  "unapply_loop ex fake states [] applied w = (Inr applied, w)"
| "unapply_loop ex fake states ((c, b) # rest) applied w =
     (case states (key_of c) of
        None \<Rightarrow> (Inl KeyError, w)
      | Some state \<Rightarrow>
          (case unapply_change ex state c fake w of
             (Inl e, w') \<Rightarrow> (Inl e, w')
           | (Inr _, w') \<Rightarrow>
               (if key_of c \<in> applied
                then unapply_loop ex fake states rest (applied - {key_of c}) w'
                else (Inl KeyError, w'))))"

text \<open>The state after the run: from the first place of the last change on.\<close>

fun replay_from :: "key \<Rightarrow> key set \<Rightarrow> plan \<Rightarrow> project_state \<Rightarrow> project_state" where
  "replay_from last_unapplied applied [] state = state"
| "replay_from last_unapplied applied ((c, b) # rest) state =
     (if key_of c = last_unapplied then replay applied ((c, b) # rest) state
      else replay_from last_unapplied applied rest state)"

definition change_all_backwards ::
  "executor \<Rightarrow> plan \<Rightarrow> plan \<Rightarrow> bool \<Rightarrow> world \<Rightarrow> (exn + project_state) \<times> world" where
  "change_all_backwards ex plan full_plan fake w =
     (case create_project_state ex False of
        Inl e \<Rightarrow> (Inl e, w)
      | Inr state \<Rightarrow>
          (let states = states_loop (applied_in_graph ex) full_plan (key_of ` fst ` set plan)
                          Map.empty state;
               w1 = progress_callback ex render_success (progress_callback ex render_start w)
           in case unapply_loop ex fake states plan (applied_in_graph ex) w1 of
                (Inl e, w2) \<Rightarrow> (Inl e, w2)
              | (Inr applied, w2) \<Rightarrow>
                  (if plan = [] then (Inl IndexError, w2)
                   else (case states (key_of (fst (last plan))) of
                           None \<Rightarrow> (Inl KeyError, w2)
                         | Some state' \<Rightarrow>
                             (Inr (replay_from (key_of (fst (last plan))) applied full_plan
                                     state'), w2)))))"

text \<open>
  The methods of \<^verbatim>\<open>ChangeExecutor\<close> that take a plan, the full plan and \<open>fake\<close>.  A call
  \<^verbatim>\<open>self.m(plan, full_plan, fake=fake)\<close> looks \<open>m\<close> up by name; a name the class does not
  define is an \<open>AttributeError\<close>.
\<close>

definition ChangeExecutor_methods ::
  "(string \<times> (executor \<Rightarrow> plan \<Rightarrow> plan \<Rightarrow> bool \<Rightarrow> world \<Rightarrow> (exn + project_state) \<times> world)) list" where
  "ChangeExecutor_methods = [(''_change_all_backwards'', change_all_backwards)]"

definition all_forwards :: "plan \<Rightarrow> bool" where
  "all_forwards plan = list_all (\<lambda>(mig, backwards). \<not> backwards) plan"

definition all_backwards :: "plan \<Rightarrow> bool" where
  "all_backwards plan = list_all (\<lambda>(mig, backwards). backwards) plan"

definition change ::
  "executor \<Rightarrow> target list \<Rightarrow> plan option \<Rightarrow> project_state option \<Rightarrow> bool \<Rightarrow> world
     \<Rightarrow> (exn + project_state) \<times> world" where
  "change ex targets plan_arg state_arg fake w =
     (case (case plan_arg of None \<Rightarrow> change_plan ex targets False | Some p \<Rightarrow> Inr p) of
        Inl e \<Rightarrow> (Inl e, w)
      | Inr plan \<Rightarrow>
          (case change_plan ex (leaf_targets ex) True of
             Inl e \<Rightarrow> (Inl e, w)
           | Inr full_plan \<Rightarrow>
               (if plan = []
                then (case state_arg of
                        None \<Rightarrow> (create_project_state ex True, w)
                      | Some state \<Rightarrow> (Inr state, w))
                else if all_forwards plan = all_backwards plan
                then (Inl InvalidChangePlan, w)
                else if all_forwards plan
                then (case (case state_arg of
                              None \<Rightarrow> create_project_state ex True
                            | Some state \<Rightarrow> Inr state) of
                        Inl e \<Rightarrow> (Inl e, w)
                      | Inr state \<Rightarrow> change_all_forwards ex state plan full_plan fake w)
                else (case map_of ChangeExecutor_methods ''_migrate_all_backwards'' of
                        None \<Rightarrow> (Inl (AttributeError ''_migrate_all_backwards''), w)
                      | Some m \<Rightarrow> m ex plan full_plan fake w))))"

section \<open>Notions of the statements\<close>


text \<open>A plan entry is the backward entry of a key: the change of that key, marked backwards.\<close>

definition backward_entry :: "graph \<Rightarrow> key \<Rightarrow> change \<times> bool \<Rightarrow> bool" where
  "backward_entry g k e \<longleftrightarrow> nodes g k = Some (fst e) \<and> snd e"

text \<open>
  The dependency edges of a graph, from a unit to each unit that depends on it: a path
  along them leads from a unit to the units that depend on it through others.
\<close>

definition child_edges :: "graph \<Rightarrow> (key \<times> key) set" where
  "child_edges g = {(u, v). \<exists>n. node_map g u = Some n \<and> v \<in> set (children n)}"

section \<open>Example data\<close>

text \<open>
  A database without the changelog table and one with it, holding the row of \<open>x.A\<close>; a
  change whose only operation is a \<^verbatim>\<open>RunSQL\<close>; an executor with a progress callback and
  an empty graph.
\<close>

definition fresh_database :: world where
  "fresh_database =
     \<lparr>table_names = [], rows = [], editor_enter = None, editor_exit = None, executed = [],
      execute_fails = (\<lambda>s. False), progress = [], backend_calls = 0,
      prepare_sql_script = (\<lambda>s. [s])\<rparr>"

definition recorded_database :: world where
  "recorded_database = fresh_database\<lparr>table_names := [db_table], rows := [(''x'', ''A'')]\<rparr>"

definition broken_change :: change where
  "broken_change =
     \<lparr>name = ''0001_initial'', app_label = ''x'', description = [],
      operations = [RunSQL (Script ''SELECT 1'') None []], dependencies = []\<rparr>"

definition quiet_executor :: executor where
  "quiet_executor =
     \<lparr>loader = \<lparr>graph = [], loader_applied_changes = {}, unchanged_apps = []\<rparr>,
      has_progress_callback = True\<rparr>"

definition empty_state :: project_state where
  "empty_state = \<lparr>real_apps = [], applied_ops = [], apps_rendered = False\<rparr>"

text \<open>
  Three changes of the label \<open>x\<close> and the graph in which they form the chain A, B, C,
  all three applied.
\<close>

definition unit_A :: change where
  "unit_A = \<lparr>name = ''A'', app_label = ''x'', description = [],
             operations = [RunPython None None], dependencies = []\<rparr>"

definition unit_B :: change where
  "unit_B = \<lparr>name = ''B'', app_label = ''x'', description = [],
             operations = [RunPython None None], dependencies = [(''x'', ''A'')]\<rparr>"

definition unit_C :: change where
  "unit_C = \<lparr>name = ''C'', app_label = ''x'', description = [],
             operations = [RunPython None None], dependencies = [(''x'', ''B'')]\<rparr>"

definition chain_graph :: graph where
  "chain_graph =
     [((''x'', ''A''), \<lparr>node_change = unit_A, parents = [], children = [(''x'', ''B'')]\<rparr>),
      ((''x'', ''B''), \<lparr>node_change = unit_B, parents = [(''x'', ''A'')],
                        children = [(''x'', ''C'')]\<rparr>),
      ((''x'', ''C''), \<lparr>node_change = unit_C, parents = [(''x'', ''B'')], children = []\<rparr>)]"

definition chain_loader :: loader where
  "chain_loader =
     \<lparr>graph = chain_graph,
      loader_applied_changes = {(''x'', ''A''), (''x'', ''B''), (''x'', ''C'')},
      unchanged_apps = []\<rparr>"

text \<open>A graph in which \<open>x.B\<close> and \<open>x.C\<close> both depend on \<open>x.A\<close>.\<close>

definition heads_graph :: graph where
  "heads_graph =
     [((''x'', ''A''), \<lparr>node_change = unit_A, parents = [],
                        children = [(''x'', ''B''), (''x'', ''C'')]\<rparr>),
      ((''x'', ''B''), \<lparr>node_change = unit_B, parents = [(''x'', ''A'')], children = []\<rparr>),
      ((''x'', ''C''), \<lparr>node_change = unit_C\<lparr>dependencies := [(''x'', ''A'')]\<rparr>,
                        parents = [(''x'', ''A'')], children = []\<rparr>)]"

definition heads_loader :: loader where
  "heads_loader = \<lparr>graph = heads_graph, loader_applied_changes = {}, unchanged_apps = []\<rparr>"

definition chain_executor :: executor where
  "chain_executor = \<lparr>loader = chain_loader, has_progress_callback = True\<rparr>"

section \<open>RunSQL never reaches its statements\<close>

text \<open>
  C9.  Both \<^verbatim>\<open>database_forwards\<close> and, with a reverse SQL, \<^verbatim>\<open>database_backwards\<close> of
  a \<^verbatim>\<open>RunSQL\<close> operation call \<^verbatim>\<open>_run_sql\<close> with one argument where two are required: the
  call fails with the missing-argument \<open>TypeError\<close>, and no SQL statement has been
  executed.
\<close>

theorem RunSQL_database_level_fails:
  "fst (database_forwards (RunSQL s r so) w) = Inl (TypeError ''_run_sql'')
   \<and> executed (snd (database_forwards (RunSQL s r so) w)) = executed w
   \<and> fst (database_backwards (RunSQL s (Some rs) so) w) = Inl (TypeError ''_run_sql'')
   \<and> executed (snd (database_backwards (RunSQL s (Some rs) so) w)) = executed w"
  by (simp add: run_sql_def count_call_def)

section \<open>The recorder and the applied set\<close>

lemma rows_execute: "rows (snd (execute s w)) = rows w"
  by (simp add: execute_def)

lemma rows_run_items: "rows (snd (run_items xs w)) = rows w"
proof (induction xs w rule: run_items.induct)
  case (2 s rest w)
  obtain r w' where e: "execute s w = (r, w')" by (cases "execute s w")
  with rows_execute[of s w] have "rows w' = rows w" by simp
  with e 2 show ?case by (cases r) simp_all
next
  case (3 s ps rest w)
  obtain r w' where e: "execute s w = (r, w')" by (cases "execute s w")
  with rows_execute[of s w] have "rows w' = rows w" by simp
  with e 3 show ?case by (cases r) simp_all
qed simp_all

lemma rows_run_statements: "rows (snd (run_statements ss w)) = rows w"
proof (induction ss arbitrary: w)
  case Nil
  show ?case by simp
next
  case (Cons s ss)
  obtain r w' where e: "execute s w = (r, w')" by (cases "execute s w")
  with rows_execute[of s w] have "rows w' = rows w" by simp
  with e Cons[of w'] show ?case by (cases r) simp_all
qed

lemma rows_with_schema_editor:
  "(\<And>w1. rows (snd (body w1)) = rows w1) \<Longrightarrow> rows (snd (with_schema_editor w body)) = rows w"
  unfolding with_schema_editor_def
  by (cases "body w") (auto split: option.splits  dest: meta_spec[of _ w])

lemma rows_run_sql: "rows (snd (run_sql args w)) = rows w"
proof -
  have "rows (snd (run_sql_body s w)) = rows w" for s
    unfolding run_sql_body_def
    by (rule rows_with_schema_editor)
       (simp add: rows_run_items rows_run_statements split: sqls.splits)
  then show ?thesis
    by (simp add: run_sql_def split: list.splits)
qed

lemma rows_database_forwards: "rows (snd (database_forwards operation w)) = rows w"
  by (cases operation) (simp_all add: rows_run_sql count_call_def split: option.splits)

lemma rows_apply_operations: "rows (snd (apply_operations ops w)) = rows w"
proof (induction ops arbitrary: w)
  case Nil
  show ?case by simp
next
  case (Cons operation ops)
  show ?case
  proof (cases "database_forwards operation w")
    case (Pair r w')
    with rows_database_forwards[of operation w] have "rows w' = rows w" by simp
    with Pair Cons.IH[of w'] show ?thesis by (cases r) simp_all
  qed
qed

lemma rows_Change_apply: "rows (snd (Change_apply c st w)) = rows w"
proof (cases "apply_operations (operations c) w")
  case (Pair r w')
  with rows_apply_operations[of "operations c" w] have "rows w' = rows w" by simp
  with Pair show ?thesis by (cases r) (simp_all add: Change_apply_def)
qed

lemma rows_progress_callback: "rows (progress_callback ex ev w) = rows w"
  by (simp add: progress_callback_def)

lemma ensure_schema_cases:
  "ensure_schema w = (Inr (), w) \<and> db_table \<in> set (table_names w)
   \<or> (\<exists>e. ensure_schema w = (Inl e, w)) \<and> db_table \<notin> set (table_names w)"
  by (auto simp: ensure_schema_def with_schema_editor_def ChangeRecorder_getattr_def
      ChangeRecorder_attributes_def split: option.splits)

lemma ensure_schema_missing:
  assumes "db_table \<notin> set (table_names w)"
  shows "ensure_schema w =
           (case editor_enter w of
              Some e \<Rightarrow> (if is_DatabaseError e then Inl ChangeSchemaMissing else Inl e, w)
            | None \<Rightarrow>
                (case editor_exit w of
                   Some e \<Rightarrow> (if is_DatabaseError e then Inl ChangeSchemaMissing else Inl e, w)
                 | None \<Rightarrow> (Inl (AttributeError ''Migration''), w)))"
  using assms
  by (simp add: ensure_schema_def with_schema_editor_def ChangeRecorder_getattr_def
      ChangeRecorder_attributes_def split: option.splits)

text \<open>
  C10, as amended.  When the changelog table does not exist: if the schema-editor
  context is entered and left without an exception, \<^verbatim>\<open>ensure_schema\<close> raises the
  \<open>AttributeError\<close> of \<^verbatim>\<open>self.Migration\<close>; in every case it fails and creates no table,
  and \<^verbatim>\<open>applied_changes\<close>, \<^verbatim>\<open>record_applied\<close> and \<^verbatim>\<open>record_unapplied\<close> fail with
  the same exception, leaving the world as it was; \<open>ChangeSchemaMissing\<close> is raised
  exactly when entering or leaving the schema-editor context raises a \<open>DatabaseError\<close>.
\<close>

theorem ensure_schema_fresh_database:
  assumes "db_table \<notin> set (table_names w)"
  shows "(editor_enter w = None \<and> editor_exit w = None
            \<longrightarrow> ensure_schema w = (Inl (AttributeError ''Migration''), w))
         \<and> (\<exists>e. ensure_schema w = (Inl e, w) \<and> applied_changes w = (Inl e, w)
                 \<and> record_applied app nm w = (Inl e, w)
                 \<and> record_unapplied app nm w = (Inl e, w))
         \<and> (fst (ensure_schema w) = Inl ChangeSchemaMissing
              \<longleftrightarrow> (\<exists>e. is_DatabaseError e
                       \<and> (editor_enter w = Some e
                            \<or> editor_enter w = None \<and> editor_exit w = Some e)))"
proof (intro conjI)
  show "editor_enter w = None \<and> editor_exit w = None
          \<longrightarrow> ensure_schema w = (Inl (AttributeError ''Migration''), w)"
    by (simp add: ensure_schema_missing[OF assms])
  from ensure_schema_cases[of w] assms obtain e where e: "ensure_schema w = (Inl e, w)"
    by auto
  then show "\<exists>e. ensure_schema w = (Inl e, w) \<and> applied_changes w = (Inl e, w)
                 \<and> record_applied app nm w = (Inl e, w)
                 \<and> record_unapplied app nm w = (Inl e, w)"
    by (simp add: applied_changes_def record_applied_def record_unapplied_def)
  show "fst (ensure_schema w) = Inl ChangeSchemaMissing
              \<longleftrightarrow> (\<exists>e. is_DatabaseError e
                       \<and> (editor_enter w = Some e
                            \<or> editor_enter w = None \<and> editor_exit w = Some e))"
  proof (cases "editor_enter w")
    case None
    show ?thesis
    proof (cases "editor_exit w")
      case None
      with \<open>editor_enter w = None\<close> show ?thesis
        by (simp add: ensure_schema_missing[OF assms])
    next
      case (Some x)
      with \<open>editor_enter w = None\<close> show ?thesis
        by (cases x) (simp_all add: ensure_schema_missing[OF assms])
    qed
  next
    case (Some x)
    then show ?thesis
      by (cases x) (simp_all add: ensure_schema_missing[OF assms])
  qed
qed

text \<open>On a fresh database whose schema editor opens and closes normally.\<close>

theorem ensure_schema_fresh_database_witness:
  "db_table \<notin> set (table_names fresh_database)
   \<and> ensure_schema fresh_database = (Inl (AttributeError ''Migration''), fresh_database)
   \<and> fst (applied_changes fresh_database) = Inl (AttributeError ''Migration'')"
proof -
  have h: "db_table \<notin> set (table_names fresh_database)"
    by (simp add: fresh_database_def)
  have e: "editor_enter fresh_database = None \<and> editor_exit fresh_database = None"
    by (simp add: fresh_database_def)
  from ensure_schema_fresh_database[OF h, of "''x''" "''A''"] e
  have 1: "ensure_schema fresh_database = (Inl (AttributeError ''Migration''), fresh_database)"
    and 2: "\<exists>e. ensure_schema fresh_database = (Inl e, fresh_database)
                \<and> applied_changes fresh_database = (Inl e, fresh_database)"
    by blast+
  from 1 2 have "fst (applied_changes fresh_database) = Inl (AttributeError ''Migration'')"
    by auto
  with h 1 show ?thesis by simp
qed

text \<open>
  C10 as stated fails: on a fresh database whose schema editor raises a
  \<open>DatabaseError\<close> on entry, the handler is reached and \<open>ChangeSchemaMissing\<close> is raised,
  not an \<open>AttributeError\<close>.
\<close>

theorem ensure_schema_counterexample:
  "fst (ensure_schema (fresh_database\<lparr>editor_enter := Some DatabaseError\<rparr>))
     = Inl ChangeSchemaMissing"
  by (simp add: ensure_schema_def with_schema_editor_def fresh_database_def)

lemma rows_record_applied_fail:
  "fst (record_applied app nm w) = Inl e \<Longrightarrow> rows (snd (record_applied app nm w)) = rows w"
  using ensure_schema_cases[of w] by (auto simp: record_applied_def)

lemma rows_record_unapplied_fail:
  "fst (record_unapplied app nm w) = Inl e \<Longrightarrow> rows (snd (record_unapplied app nm w)) = rows w"
  using ensure_schema_cases[of w] by (auto simp: record_unapplied_def)

lemma rows_record_applied_ok:
  "record_applied app nm w = (Inr u, w') \<Longrightarrow> rows w' = rows w @ [(app, nm)]"
  using ensure_schema_cases[of w] by (auto simp: record_applied_def)

lemma apply_change_fake_fail:
  assumes "fst (apply_change ex st c True w) = Inl e"
  shows "rows (snd (apply_change ex st c True w)) = rows w"
proof -
  define w1 where "w1 = progress_callback ex (apply_start (key_of c) True) w"
  have r1: "rows w1 = rows w" by (simp add: w1_def rows_progress_callback)
  obtain q w3 where ra: "record_applied (app_label c) (name c) w1 = (q, w3)"
    by (cases "record_applied (app_label c) (name c) w1")
  with rows_record_applied_fail[of "app_label c" "name c" w1] r1
  have "\<And>e. q = Inl e \<Longrightarrow> rows w3 = rows w" by simp
  with assms ra show ?thesis
    by (cases q) (simp_all add: apply_change_def w1_def[symmetric] Let_def)
qed

lemma apply_change_real_fail:
  assumes "fst (apply_change ex st c False w) = Inl e"
  shows "rows (snd (apply_change ex st c False w)) = rows w"
proof -
  define w1 where "w1 = progress_callback ex (apply_start (key_of c) False) w"
  have r1: "rows w1 = rows w" by (simp add: w1_def rows_progress_callback)
  obtain r w2 where ca: "Change_apply c st w1 = (r, w2)" by (cases "Change_apply c st w1")
  with rows_Change_apply[of c st w1] r1 have r2: "rows w2 = rows w" by simp
  obtain q w3 where ra: "record_applied (app_label c) (name c) w2 = (q, w3)"
    by (cases "record_applied (app_label c) (name c) w2")
  with rows_record_applied_fail[of "app_label c" "name c" w2] r2
  have "\<And>e. q = Inl e \<Longrightarrow> rows w3 = rows w" by simp
  with assms ca ra r2 show ?thesis
    by (cases r; cases q) (simp_all add: apply_change_def w1_def[symmetric] Let_def)
qed

lemma apply_change_fail:
  "fst (apply_change ex st c fake w) = Inl e
     \<Longrightarrow> rows (snd (apply_change ex st c fake w)) = rows w"
  by (cases fake) (simp_all add: apply_change_fake_fail apply_change_real_fail)

lemma apply_change_forward_raises:
  assumes "fst (Change_apply c st (progress_callback ex (apply_start (key_of c) False) w)) = Inl e"
  shows "fst (apply_change ex st c False w) = Inl e"
  using assms by (auto simp: apply_change_def Let_def split: prod.splits sum.splits)

lemma apply_change_ok:
  assumes "apply_change ex st c False w = (Inr st', w')"
  shows "(\<exists>w2. Change_apply c st (progress_callback ex (apply_start (key_of c) False) w)
                 = (Inr st', w2))
         \<and> rows w' = rows w @ [key_of c]"
proof -
  define w1 where "w1 = progress_callback ex (apply_start (key_of c) False) w"
  have r1: "rows w1 = rows w" by (simp add: w1_def rows_progress_callback)
  obtain r w2 where ca: "Change_apply c st w1 = (r, w2)" by (cases "Change_apply c st w1")
  with rows_Change_apply[of c st w1] r1 have r2: "rows w2 = rows w" by simp
  obtain q w3 where ra: "record_applied (app_label c) (name c) w2 = (q, w3)"
    by (cases "record_applied (app_label c) (name c) w2")
  from assms ca ra have r: "r = Inr st'" and q: "q = Inr ()"
    and w': "w' = progress_callback ex (apply_success (key_of c) False) w3"
    by (auto simp: apply_change_def w1_def[symmetric] Let_def split: sum.splits)
  from ra q rows_record_applied_ok[of "app_label c" "name c" w2 "()" w3] r2
  have "rows w3 = rows w @ [key_of c]" by (simp add: key_of_def)
  with w' ca r show ?thesis by (simp add: rows_progress_callback w1_def)
qed

lemma unapply_change_not_fake:
  "unapply_change ex st c False w
     = (Inl (AttributeError ''atomic''), progress_callback ex (unapply_start (key_of c) False) w)"
  by (simp add: unapply_change_def Change_data_attributes_def Let_def)

lemma unapply_change_fake_fail:
  assumes "fst (unapply_change ex st c True w) = Inl e"
  shows "rows (snd (unapply_change ex st c True w)) = rows w"
proof -
  define w1 where "w1 = progress_callback ex (unapply_start (key_of c) True) w"
  have r1: "rows w1 = rows w" by (simp add: w1_def rows_progress_callback)
  obtain q w3 where ra: "record_unapplied (app_label c) (name c) w1 = (q, w3)"
    by (cases "record_unapplied (app_label c) (name c) w1")
  with rows_record_unapplied_fail[of "app_label c" "name c" w1] r1
  have "\<And>e. q = Inl e \<Longrightarrow> rows w3 = rows w" by simp
  with assms ra show ?thesis
    by (cases q) (simp_all add: unapply_change_def w1_def[symmetric] Let_def)
qed

lemma unapply_change_fail:
  "fst (unapply_change ex st c fake w) = Inl e
     \<Longrightarrow> rows (snd (unapply_change ex st c fake w)) = rows w"
  by (cases fake)
     (simp_all add: unapply_change_fake_fail unapply_change_not_fake rows_progress_callback)

lemma rows_record_unapplied_ok:
  "record_unapplied app nm w = (Inr u, w') \<Longrightarrow> rows w' = filter (\<lambda>r. r \<noteq> (app, nm)) (rows w)"
  using ensure_schema_cases[of w] by (auto simp: record_unapplied_def)

lemma apply_change_rows:
  "rows (snd (apply_change ex st c fake w))
     = (case fst (apply_change ex st c fake w) of
          Inl e \<Rightarrow> rows w
        | Inr _ \<Rightarrow> rows w @ [key_of c])"
proof (cases "fst (apply_change ex st c fake w)")
  case (Inl e)
  then show ?thesis by (simp add: apply_change_fail)
next
  case (Inr st')
  define w0 where "w0 = progress_callback ex (apply_start (key_of c) fake) w"
  obtain r w2 where ca: "(if \<not> fake then Change_apply c st w0 else (Inr st, w0)) = (r, w2)"
    by (cases "if \<not> fake then Change_apply c st w0 else (Inr st, w0)")
  have r2: "rows w2 = rows w"
    using ca rows_Change_apply[of c st w0]
    by (cases fake) (auto simp: w0_def rows_progress_callback)
  obtain q w3 where ra: "record_applied (app_label c) (name c) w2 = (q, w3)"
    by (cases "record_applied (app_label c) (name c) w2")
  from Inr ca ra have q: "q = Inr ()"
    and w': "snd (apply_change ex st c fake w)
               = progress_callback ex (apply_success (key_of c) fake) w3"
    by (auto simp: apply_change_def w0_def[symmetric] Let_def split: sum.splits)
  from ra q rows_record_applied_ok[of "app_label c" "name c" w2 "()" w3] r2
  have "rows w3 = rows w @ [key_of c]" by (simp add: key_of_def)
  with w' Inr show ?thesis by (simp add: rows_progress_callback)
qed

lemma unapply_change_rows:
  "rows (snd (unapply_change ex st c fake w))
     = (case fst (unapply_change ex st c fake w) of
          Inl e \<Rightarrow> rows w
        | Inr _ \<Rightarrow> filter (\<lambda>r. r \<noteq> key_of c) (rows w))"
proof (cases "fst (unapply_change ex st c fake w)")
  case (Inl e)
  then show ?thesis by (simp add: unapply_change_fail)
next
  case (Inr st')
  then have fake: "fake" by (cases fake) (simp_all add: unapply_change_not_fake)
  define w0 where "w0 = progress_callback ex (unapply_start (key_of c) True) w"
  have r0: "rows w0 = rows w" by (simp add: w0_def rows_progress_callback)
  obtain q w3 where ra: "record_unapplied (app_label c) (name c) w0 = (q, w3)"
    by (cases "record_unapplied (app_label c) (name c) w0")
  from Inr fake ra have q: "q = Inr ()"
    and w': "snd (unapply_change ex st c fake w)
               = progress_callback ex (unapply_success (key_of c) True) w3"
    by (auto simp: unapply_change_def w0_def[symmetric] Let_def split: sum.splits)
  from ra q rows_record_unapplied_ok[of "app_label c" "name c" w0 "()" w3] r0
  have "rows w3 = filter (\<lambda>r. r \<noteq> key_of c) (rows w)" by (simp add: key_of_def)
  with w' Inr show ?thesis by (simp add: rows_progress_callback)
qed

text \<open>
  C3.  The changelog rows after \<^verbatim>\<open>apply_change\<close> are the rows before when the call
  raises, and the rows before with the unit's row added when it returns; after
  \<^verbatim>\<open>unapply_change\<close> they are the rows before when the call raises, and the rows before
  without the unit's rows when it returns.  An exception of the forward application is
  the exception of \<^verbatim>\<open>apply_change\<close>, and a returning \<^verbatim>\<open>apply_change\<close> that is not
  faked has seen the forward application return.
\<close>

theorem applied_set_written_after_action:
  "rows (snd (apply_change ex st c fake w))
     = (case fst (apply_change ex st c fake w) of
          Inl e \<Rightarrow> rows w
        | Inr _ \<Rightarrow> rows w @ [key_of c])
   \<and> rows (snd (unapply_change ex st c fake w))
     = (case fst (unapply_change ex st c fake w) of
          Inl e \<Rightarrow> rows w
        | Inr _ \<Rightarrow> filter (\<lambda>r. r \<noteq> key_of c) (rows w))
   \<and> (fst (Change_apply c st (progress_callback ex (apply_start (key_of c) False) w)) = Inl e
        \<longrightarrow> fst (apply_change ex st c False w) = Inl e
            \<and> rows (snd (apply_change ex st c False w)) = rows w)
   \<and> (apply_change ex st c False w = (Inr st', w')
        \<longrightarrow> (\<exists>w2. Change_apply c st (progress_callback ex (apply_start (key_of c) False) w)
                     = (Inr st', w2)))"
  using apply_change_rows[of ex st c fake w] unapply_change_rows[of ex st c fake w]
    apply_change_forward_raises[of c st ex w e] apply_change_real_fail[of ex st c w e]
    apply_change_ok[of ex st c w st' w']
  by blast

text \<open>A change whose forward application raises leaves the recorded row alone.\<close>

theorem applied_set_written_after_action_witness:
  "fst (Change_apply broken_change empty_state
          (progress_callback quiet_executor (apply_start (key_of broken_change) False)
             recorded_database)) = Inl (TypeError ''_run_sql'')
   \<and> fst (apply_change quiet_executor empty_state broken_change False recorded_database)
       = Inl (TypeError ''_run_sql'')
   \<and> rows (snd (apply_change quiet_executor empty_state broken_change False recorded_database))
       = [(''x'', ''A'')]"
proof -
  have h: "fst (Change_apply broken_change empty_state
          (progress_callback quiet_executor (apply_start (key_of broken_change) False)
             recorded_database)) = Inl (TypeError ''_run_sql'')"
    by (simp add: Change_apply_def broken_change_def run_sql_def)
  have r: "rows recorded_database = [(''x'', ''A'')]"
    by (simp add: recorded_database_def fresh_database_def)
  from h r applied_set_written_after_action[of quiet_executor empty_state broken_change False
      recorded_database "TypeError ''_run_sql''" empty_state recorded_database]
  show ?thesis by simp
qed

lemma ensure_schema_snd: "snd (ensure_schema w) = w"
  using ensure_schema_cases[of w] by auto

lemma fake_apply_calls:
  "backend_calls (snd (apply_change ex st c True w)) = backend_calls w
   \<and> executed (snd (apply_change ex st c True w)) = executed w"
proof -
  define w1 where "w1 = progress_callback ex (apply_start (key_of c) True) w"
  obtain q where "ensure_schema w1 = (q, w1)"
    using ensure_schema_snd[of w1] by (cases "ensure_schema w1") simp
  then show ?thesis
    by (cases q)
       (simp_all add: apply_change_def record_applied_def w1_def[symmetric] Let_def,
        simp_all add: w1_def progress_callback_def)
qed

lemma fake_unapply_calls:
  "backend_calls (snd (unapply_change ex st c True w)) = backend_calls w
   \<and> executed (snd (unapply_change ex st c True w)) = executed w"
proof -
  define w1 where "w1 = progress_callback ex (unapply_start (key_of c) True) w"
  obtain q where "ensure_schema w1 = (q, w1)"
    using ensure_schema_snd[of w1] by (cases "ensure_schema w1") simp
  then show ?thesis
    by (cases q)
       (simp_all add: unapply_change_def record_unapplied_def w1_def[symmetric] Let_def,
        simp_all add: w1_def progress_callback_def)
qed

lemma fake_apply_effect:
  assumes "db_table \<in> set (table_names w)"
  shows "apply_change ex st c True w
           = (Inr st, w\<lparr>rows := rows w @ [key_of c],
                        progress := progress w @
                          (if has_progress_callback ex
                           then [apply_start (key_of c) True, apply_success (key_of c) True]
                           else [])\<rparr>)"
  using assms
  by (simp add: apply_change_def record_applied_def ensure_schema_def progress_callback_def
      key_of_def Let_def)

lemma fake_unapply_effect:
  assumes "db_table \<in> set (table_names w)"
  shows "unapply_change ex st c True w
           = (Inr st, w\<lparr>rows := filter (\<lambda>r. r \<noteq> key_of c) (rows w),
                        progress := progress w @
                          (if has_progress_callback ex
                           then [unapply_start (key_of c) True, unapply_success (key_of c) True]
                           else [])\<rparr>)"
  using assms
  by (simp add: unapply_change_def record_unapplied_def ensure_schema_def progress_callback_def
      key_of_def Let_def)

text \<open>
  C8.  With \<open>fake\<close>, \<^verbatim>\<open>apply_change\<close> and \<^verbatim>\<open>unapply_change\<close> invoke no database-level
  operation and execute no statement; where the changelog table exists they return the
  state they were given, add (remove) the unit's row, and emit the start and success
  notifications to the progress callback, if there is one.
\<close>

theorem fake_records_without_backend:
  "backend_calls (snd (apply_change ex st c True w)) = backend_calls w
   \<and> executed (snd (apply_change ex st c True w)) = executed w
   \<and> backend_calls (snd (unapply_change ex st c True w)) = backend_calls w
   \<and> executed (snd (unapply_change ex st c True w)) = executed w
   \<and> (db_table \<in> set (table_names w) \<longrightarrow>
        apply_change ex st c True w
          = (Inr st, w\<lparr>rows := rows w @ [key_of c],
                       progress := progress w @
                         (if has_progress_callback ex
                          then [apply_start (key_of c) True, apply_success (key_of c) True]
                          else [])\<rparr>)
        \<and> unapply_change ex st c True w
          = (Inr st, w\<lparr>rows := filter (\<lambda>r. r \<noteq> key_of c) (rows w),
                       progress := progress w @
                         (if has_progress_callback ex
                          then [unapply_start (key_of c) True, unapply_success (key_of c) True]
                          else [])\<rparr>))"
  using fake_apply_calls[of ex st c w] fake_unapply_calls[of ex st c w]
    fake_apply_effect[of w ex st c] fake_unapply_effect[of w ex st c]
  by blast

text \<open>Faking a change whose real application would raise.\<close>

theorem fake_records_without_backend_witness:
  "db_table \<in> set (table_names recorded_database)
   \<and> has_progress_callback quiet_executor
   \<and> rows (snd (apply_change quiet_executor empty_state broken_change True recorded_database))
       = [(''x'', ''A''), (''x'', ''0001_initial'')]
   \<and> progress (snd (apply_change quiet_executor empty_state broken_change True recorded_database))
       = [apply_start (''x'', ''0001_initial'') True, apply_success (''x'', ''0001_initial'') True]
   \<and> backend_calls (snd (apply_change quiet_executor empty_state broken_change True
                            recorded_database)) = 0"
proof -
  have h: "db_table \<in> set (table_names recorded_database)"
    by (simp add: recorded_database_def fresh_database_def)
  have c: "has_progress_callback quiet_executor"
    by (simp add: quiet_executor_def)
  have k: "key_of broken_change = (''x'', ''0001_initial'')"
    by (simp add: key_of_def broken_change_def)
  have r: "rows recorded_database = [(''x'', ''A'')]"
    "progress recorded_database = []" "backend_calls recorded_database = 0"
    by (simp_all add: recorded_database_def fresh_database_def)
  from fake_records_without_backend[of quiet_executor empty_state broken_change
      recorded_database] h
  have "apply_change quiet_executor empty_state broken_change True recorded_database
          = (Inr empty_state, recorded_database\<lparr>rows := rows recorded_database @ [key_of broken_change],
                       progress := progress recorded_database @
                         (if has_progress_callback quiet_executor
                          then [apply_start (key_of broken_change) True, apply_success (key_of broken_change) True]
                          else [])\<rparr>)"
    by blast
  with h c k r show ?thesis by simp
qed

section \<open>The loader: history and conflicts\<close>







lemma detect_loop_fst:
  "fst (detect_loop ks (seen, conf)) a
     = (if \<exists>n. (a, n) \<in> set ks
        then Some ({n. (a, n) \<in> set ks} \<union> (case seen a of None \<Rightarrow> {} | Some s \<Rightarrow> s))
        else seen a)"
proof (induction ks arbitrary: seen conf)
  case Nil
  show ?case by simp
next
  case (Cons k ks)
  obtain a0 n0 where k: "k = (a0, n0)" by (cases k)
  show ?case
    unfolding k detect_loop.simps Cons.IH
    by (auto split: option.splits)
qed

lemma detect_loop_snd:
  "distinct ks \<Longrightarrow>
   snd (detect_loop ks (seen, conf))
     = conf \<union> {a. (\<exists>n. (a, n) \<in> set ks)
                    \<and> (seen a \<noteq> None
                         \<or> (\<exists>n m. n \<noteq> m \<and> (a, n) \<in> set ks \<and> (a, m) \<in> set ks))}"
proof (induction ks arbitrary: seen conf)
  case Nil
  show ?case by simp
next
  case (Cons k ks)
  obtain a0 n0 where k: "k = (a0, n0)" by (cases k)
  from Cons.prems k have d: "distinct ks" and nk: "(a0, n0) \<notin> set ks" by simp_all
  show ?case
    unfolding k detect_loop.simps Cons.IH[OF d]
    using nk by (auto split: if_splits) metis
qed

lemma distinct_leaf_nodes: "distinct (leaf_nodes g ns)"
  by (simp add: leaf_nodes_def)

lemma card_gt_1_iff:
  assumes "finite S"
  shows "1 < card S \<longleftrightarrow> (\<exists>x y. x \<noteq> y \<and> x \<in> S \<and> y \<in> S)"
proof
  assume "1 < card S"
  then obtain x where x: "x \<in> S" by (cases "S = {}") auto
  with assms \<open>1 < card S\<close> have "card (S - {x}) > 0" by simp
  then obtain y where "y \<in> S - {x}" by (metis card_gt_0_iff ex_in_conv)
  with x show "\<exists>x y. x \<noteq> y \<and> x \<in> S \<and> y \<in> S" by blast
next
  assume "\<exists>x y. x \<noteq> y \<and> x \<in> S \<and> y \<in> S"
  then obtain x y where xy: "x \<noteq> y" "x \<in> S" "y \<in> S" by blast
  then have "{x, y} \<subseteq> S" by simp
  with assms have "card {x, y} \<le> card S" by (rule card_mono)
  with xy show "1 < card S" by simp
qed

lemma finite_names: "finite {n. (a, n) \<in> set ks}"
proof -
  have "{n. (a, n) \<in> set ks} \<subseteq> snd ` set ks" by force
  then show ?thesis by (rule finite_subset) simp
qed

lemma detect_conflicts_eq:
  "detect_conflicts l a
     = (if 1 < card {n. (a, n) \<in> set (leaf_nodes (graph l) None)}
        then Some {n. (a, n) \<in> set (leaf_nodes (graph l) None)} else None)"
proof -
  define ks where "ks = leaf_nodes (graph l) None"
  have d: "distinct ks" by (simp add: ks_def distinct_leaf_nodes)
  obtain seen conf where r: "detect_loop ks (Map.empty, {}) = (seen, conf)"
    by (cases "detect_loop ks (Map.empty, {})")
  from detect_loop_fst[of ks Map.empty "{}" a] r
  have s: "seen a = (if \<exists>n. (a, n) \<in> set ks then Some {n. (a, n) \<in> set ks} else None)"
    by simp
  from detect_loop_snd[OF d, of Map.empty "{}"] r
  have c: "a \<in> conf \<longleftrightarrow> (\<exists>n m. n \<noteq> m \<and> (a, n) \<in> set ks \<and> (a, m) \<in> set ks)"
    by auto
  have "1 < card {n. (a, n) \<in> set ks}
          \<longleftrightarrow> (\<exists>n m. n \<noteq> m \<and> (a, n) \<in> set ks \<and> (a, m) \<in> set ks)"
    using card_gt_1_iff[OF finite_names[of a ks]] by simp
  with c s r show ?thesis
    by (auto simp: detect_conflicts_def ks_def[symmetric])
qed

lemma leaf_nodes_member:
  "k \<in> set (leaf_nodes g None)
     \<longleftrightarrow> (\<exists>n. node_map g k = Some n \<and> (\<forall>c \<in> set (children n). fst c \<noteq> fst k))"
proof -
  have "node_map g k = Some n \<Longrightarrow> k \<in> fst ` set g" for n
    by (metis node_map_def map_of_SomeD fst_conv image_eqI)
  then show ?thesis
    by (auto simp: leaf_nodes_def split: option.splits)
qed

section \<open>Plans\<close>

lemma plan_target_leaf:
  assumes "k \<in> set (leaf_nodes g None)" and "k \<in> applied"
  shows "plan_target g (plan, applied) (fst k, Some (snd k)) = Inr (plan, applied)"
proof -
  from assms(1) obtain n where n: "node_map g k = Some n"
    and "\<forall>c \<in> set (children n). fst c \<noteq> fst k"
    by (auto simp: leaf_nodes_member)
  then have "filter (\<lambda>c. fst c = fst k) (children n) = []"
    by (auto simp: filter_empty_conv)
  with n assms(2) show ?thesis by (simp add: plan_target_def)
qed

lemma plan_targets_leaves:
  assumes "set ks \<subseteq> set (leaf_nodes g None)" and "set ks \<subseteq> applied"
  shows "plan_targets g (map (\<lambda>(app, nm). (app, Some nm)) ks) (plan, applied)
           = Inr (plan, applied)"
  using assms
proof (induction ks)
  case Nil
  show ?case by simp
next
  case (Cons k ks)
  then have "k \<in> set (leaf_nodes g None)" "k \<in> applied" by auto
  from plan_target_leaf[OF this, of plan] Cons show ?case
    by (simp add: case_prod_unfold)
qed

lemma leaf_nodes_keys: "set (leaf_nodes g ns) \<subseteq> fst ` set g"
  by (auto simp: leaf_nodes_def)

text \<open>
  C6.  When every change of the graph is in the loader's applied set, the plan for the
  leaf nodes, computed with \<open>clean_start\<close> false, is empty.
\<close>

theorem change_plan_applied_leaves:
  assumes "fst ` set (graph (loader ex)) \<subseteq> loader_applied_changes (loader ex)"
  shows "change_plan ex (leaf_targets ex) False = Inr []"
proof -
  have "set (leaf_nodes (graph (loader ex)) None) \<subseteq> loader_applied_changes (loader ex)"
    using leaf_nodes_keys[of "graph (loader ex)" None] assms by blast
  from plan_targets_leaves[OF subset_refl this, of "[]"] show ?thesis
    by (simp add: change_plan_def leaf_targets_def)
qed

text \<open>The chain A, B, C with all three applied: its leaf C gives the empty plan.\<close>

theorem change_plan_applied_leaves_witness:
  "fst ` set (graph (loader chain_executor)) \<subseteq> loader_applied_changes (loader chain_executor)
   \<and> leaf_targets chain_executor = [(''x'', Some ''C'')]
   \<and> change_plan chain_executor [(''x'', Some ''C'')] False = Inr []"
proof -
  have h: "fst ` set (graph (loader chain_executor))
             \<subseteq> loader_applied_changes (loader chain_executor)"
    by (simp add: chain_executor_def chain_loader_def chain_graph_def)
  have "leaf_nodes chain_graph None = [(''x'', ''C'')]" by code_simp
  then have l: "leaf_targets chain_executor = [(''x'', Some ''C'')]"
    by (simp add: leaf_targets_def chain_executor_def chain_loader_def)
  from change_plan_applied_leaves[OF h] h l show ?thesis by simp
qed

lemma set_dedup: "set (dedup xs) = set xs"
  by (induction xs) auto

lemma filter_dedup: "filter P (dedup xs) = dedup (filter P xs)"
proof (induction xs)
  case Nil
  show ?case by simp
next
  case (Cons x xs)
  have c: "filter P (filter (\<lambda>y. y \<noteq> x) (dedup xs)) = filter (\<lambda>y. y \<noteq> x) (filter P (dedup xs))"
    by (simp add: conj_commute)
  show ?case
  proof (cases "P x")
    case True
    with c Cons show ?thesis by simp
  next
    case False
    then have "x \<notin> set (dedup (filter P xs))" by (simp add: set_dedup)
    then have "filter (\<lambda>y. y \<noteq> x) (dedup (filter P xs)) = dedup (filter P xs)"
      by (auto simp: filter_id_conv)
    with False c Cons show ?thesis by simp
  qed
qed

lemma dedup_append: "dedup (xs @ ys) = dedup xs @ filter (\<lambda>y. y \<notin> set xs) (dedup ys)"
proof (induction xs)
  case Nil
  show ?case by simp
next
  case (Cons x xs)
  have "filter (\<lambda>y. y \<noteq> x) (filter (\<lambda>y. y \<notin> set xs) (dedup ys))
          = filter (\<lambda>y. y \<notin> set (x # xs)) (dedup ys)"
    by (auto simp: conj_commute intro: filter_cong)
  with Cons show ?case by simp
qed

lemma dfs_neighbours:
  "dfs g nxt path k = Inr out \<Longrightarrow>
     k \<notin> set path \<and> k \<in> set out
     \<and> (\<forall>x \<in> set out. \<forall>n. map_of g x = Some n \<longrightarrow> set (nxt n) \<inter> (insert k (set path)) = {})"
  "dfs_all g nxt path cs = Inr out' \<Longrightarrow>
     set cs \<inter> set path = {} \<and> set cs \<subseteq> set out'
     \<and> (\<forall>x \<in> set out'. \<forall>n. map_of g x = Some n \<longrightarrow> set (nxt n) \<inter> set path = {})"
proof (induction g nxt path k and g nxt path cs arbitrary: out and out' rule: dfs_dfs_all.induct)
  case (1 g nxt path k)
  from "1.prems" have np: "k \<notin> set path" by (auto split: if_splits)
  with "1.prems" obtain n where n: "map_of g k = Some n"
    by (auto split: option.splits)
  with "1.prems" np obtain ks where ks: "dfs_all g nxt (k # path) (sort (nxt n)) = Inr ks"
    and out: "out = ks @ [k]"
    by (auto split: sum.splits)
  from "1.IH"[OF np n ks]
  have a: "set (nxt n) \<inter> set (k # path) = {}"
    and b: "\<forall>x \<in> set ks. \<forall>m. map_of g x = Some m \<longrightarrow> set (nxt m) \<inter> set (k # path) = {}"
    by simp_all
  from a b n np out show ?case by auto
next
  case (2 g nxt path)
  then show ?case by simp
next
  case (3 g nxt path c cs)
  from "3.prems" obtain ks where ks: "dfs g nxt path c = Inr ks"
    by (auto split: sum.splits)
  with "3.prems" obtain ks' where ks': "dfs_all g nxt path cs = Inr ks'"
    and out: "out' = ks @ ks'"
    by (auto split: sum.splits)
  from "3.IH"(1)[OF ks]
  have a1: "c \<notin> set path" and a2: "c \<in> set ks"
    and a3: "\<forall>x \<in> set ks. \<forall>n. map_of g x = Some n \<longrightarrow> set (nxt n) \<inter> set path = {}"
    by auto
  from "3.IH"(2)[OF ks ks']
  have b1: "set cs \<inter> set path = {}" and b2: "set cs \<subseteq> set ks'"
    and b3: "\<forall>x \<in> set ks'. \<forall>n. map_of g x = Some n \<longrightarrow> set (nxt n) \<inter> set path = {}"
    by blast+
  from a1 b1 have "set (c # cs) \<inter> set path = {}" by simp
  moreover from a2 b2 out have "set (c # cs) \<subseteq> set out'" by auto
  moreover from a3 b3 out
  have "\<forall>x \<in> set out'. \<forall>n. map_of g x = Some n \<longrightarrow> set (nxt n) \<inter> set path = {}"
    by (metis Un_iff set_append)
  ultimately show ?case by blast
qed

lemma backwards_plan_excludes_parent:
  assumes "backwards_plan g child = Inr ks"
    and "node_map g target = Some nd" and "child \<in> set (children nd)"
  shows "target \<notin> set ks \<and> child \<in> set ks"
proof -
  from assms(1) obtain out where out: "dfs g children [] child = Inr out" and ks: "ks = dedup out"
    by (cases "dfs g children [] child") (simp_all add: backwards_plan_def)
  from dfs_neighbours(1)[OF out] assms(2,3) have "target \<notin> set out" "child \<in> set out"
    by (auto simp: node_map_def)
  with ks show ?thesis by (simp add: set_dedup)
qed

lemma plan_backwards_result:
  "plan_backwards g ks (plan, applied) = Inr (plan', applied') \<Longrightarrow>
     \<exists>new. plan' = plan @ new
          \<and> list_all2 (backward_entry g) (dedup (filter (\<lambda>k. k \<in> applied) ks)) new
          \<and> applied' = applied - set ks"
proof (induction ks arbitrary: plan applied)
  case Nil
  then show ?case by simp
next
  case (Cons k ks)
  show ?case
  proof (cases "k \<in> applied")
    case False
    with Cons.prems have "plan_backwards g ks (plan, applied) = Inr (plan', applied')" by simp
    from Cons.IH[OF this] False show ?thesis by auto
  next
    case True
    with Cons.prems obtain c where c: "nodes g k = Some c"
      and r: "plan_backwards g ks (plan @ [(c, True)], applied - {k}) = Inr (plan', applied')"
      by (auto split: option.splits)
    from Cons.IH[OF r] obtain new where new: "plan' = (plan @ [(c, True)]) @ new"
      "list_all2 (backward_entry g) (dedup (filter (\<lambda>k'. k' \<in> applied - {k}) ks)) new"
      "applied' = applied - {k} - set ks"
      by blast
    have "filter (\<lambda>y. y \<noteq> k) (dedup (filter (\<lambda>k. k \<in> applied) ks))
            = dedup (filter (\<lambda>k'. k' \<in> applied - {k}) ks)"
      by (simp add: filter_dedup conj_commute)
    with True have "dedup (filter (\<lambda>k. k \<in> applied) (k # ks))
                      = k # dedup (filter (\<lambda>k'. k' \<in> applied - {k}) ks)"
      by simp
    with new c have "list_all2 (backward_entry g) (dedup (filter (\<lambda>k. k \<in> applied) (k # ks)))
                       ((c, True) # new)"
      by (simp add: backward_entry_def)
    moreover from new have "plan' = plan @ ((c, True) # new)" by simp
    moreover from new have "applied' = applied - set (k # ks)" by auto
    ultimately show ?thesis by blast
  qed
qed

lemma backwards_from_result:
  "backwards_from g ns (plan, applied) = Inr (plan', applied') \<Longrightarrow>
     \<exists>bps new. map (backwards_plan g) ns = map Inr bps
          \<and> plan' = plan @ new
          \<and> list_all2 (backward_entry g) (dedup (filter (\<lambda>k. k \<in> applied) (concat bps))) new
          \<and> applied' = applied - set (concat bps)"
proof (induction ns arbitrary: plan applied)
  case Nil
  then show ?case by simp
next
  case (Cons n ns)
  from Cons.prems obtain b where b: "backwards_plan g n = Inr b"
    by (auto split: sum.splits)
  with Cons.prems obtain plan1 applied1
    where p1: "plan_backwards g b (plan, applied) = Inr (plan1, applied1)"
      and r: "backwards_from g ns (plan1, applied1) = Inr (plan', applied')"
    by (auto split: sum.splits)
  from plan_backwards_result[OF p1] obtain new1 where new1: "plan1 = plan @ new1"
    "list_all2 (backward_entry g) (dedup (filter (\<lambda>k. k \<in> applied) b)) new1"
    "applied1 = applied - set b"
    by blast
  from Cons.IH[OF r] obtain bps new2 where new2: "map (backwards_plan g) ns = map Inr bps"
    "plan' = plan1 @ new2"
    "list_all2 (backward_entry g) (dedup (filter (\<lambda>k. k \<in> applied1) (concat bps))) new2"
    "applied' = applied1 - set (concat bps)"
    by blast
  have "filter (\<lambda>y. y \<notin> set (filter (\<lambda>k. k \<in> applied) b))
          (dedup (filter (\<lambda>k. k \<in> applied) (concat bps)))
        = dedup (filter (\<lambda>k. k \<in> applied1) (concat bps))"
    unfolding filter_dedup new1(3) by (auto intro!: arg_cong[where f = dedup] filter_cong)
  then have d: "dedup (filter (\<lambda>k. k \<in> applied) (concat (b # bps)))
          = dedup (filter (\<lambda>k. k \<in> applied) b)
            @ dedup (filter (\<lambda>k. k \<in> applied1) (concat bps))"
    by (simp add: dedup_append)
  from new1(2) new2(3) have "list_all2 (backward_entry g)
        (dedup (filter (\<lambda>k. k \<in> applied) (concat (b # bps)))) (new1 @ new2)"
    unfolding d by (rule list_all2_appendI)
  moreover from b new2(1) have "map (backwards_plan g) (n # ns) = map Inr (b # bps)" by simp
  moreover from new1(1) new2(2) have "plan' = plan @ (new1 @ new2)" by simp
  moreover from new1(3) new2(4) have "applied' = applied - set (concat (b # bps))" by auto
  ultimately show ?case by blast
qed

text \<open>
  C2.  For a concrete target in the working applied set, the step of \<^verbatim>\<open>change_plan\<close>
  for that target succeeds only with the target in the graph and the backwards plans
  of its same-label children, taken in ascending key order, all computed; it appends
  only backward entries, one for each key of these plans that is in the applied set,
  at its first place; it removes these keys from the applied set; the target is in none
  of the plans and stays applied; and each same-label child is in its own plan, so an
  applied child is rolled back.
\<close>

theorem rollback_to_just_after_target:
  assumes "(app, nm) \<in> applied"
    and "plan_target g (plan, applied) (app, Some nm) = Inr (plan', applied')"
  shows "\<exists>nd bps new.
           node_map g (app, nm) = Some nd
         \<and> map (backwards_plan g) (sort (filter (\<lambda>n. fst n = app) (children nd))) = map Inr bps
         \<and> plan' = plan @ new
         \<and> list_all2 (backward_entry g) (dedup (filter (\<lambda>k. k \<in> applied) (concat bps))) new
         \<and> applied' = applied - set (concat bps)
         \<and> (app, nm) \<notin> set (concat bps)
         \<and> (app, nm) \<in> applied'
         \<and> (\<forall>child \<in> set (children nd). fst child = app \<longrightarrow> child \<in> set (concat bps))"
proof -
  from assms obtain nd where nd: "node_map g (app, nm) = Some nd"
    and r: "backwards_from g (sort (filter (\<lambda>n. fst n = app) (children nd))) (plan, applied)
              = Inr (plan', applied')"
    by (auto simp: plan_target_def split: option.splits)
  define cs where "cs = sort (filter (\<lambda>n. fst n = app) (children nd))"
  from backwards_from_result[OF r] obtain bps new
    where bps: "map (backwards_plan g) cs = map Inr bps"
      and new: "plan' = plan @ new"
        "list_all2 (backward_entry g) (dedup (filter (\<lambda>k. k \<in> applied) (concat bps))) new"
        "applied' = applied - set (concat bps)"
    unfolding cs_def by blast
  from bps have len: "length bps = length cs" by (metis length_map)
  have each: "backwards_plan g (cs ! i) = Inr (bps ! i)" if "i < length cs" for i
  proof -
    from that len have "map (backwards_plan g) cs ! i = backwards_plan g (cs ! i)"
      and "map Inr bps ! i = (Inr (bps ! i) :: exn + key list)" by simp_all
    with bps show ?thesis by simp
  qed
  have cs_children: "set cs \<subseteq> set (children nd)" by (auto simp: cs_def)
  have notin: "(app, nm) \<notin> set (concat bps)"
  proof
    assume "(app, nm) \<in> set (concat bps)"
    then obtain b where "b \<in> set bps" "(app, nm) \<in> set b" by auto
    then obtain i where i: "i < length bps" "bps ! i = b" by (auto simp: in_set_conv_nth)
    with len have "cs ! i \<in> set (children nd)" using cs_children by auto
    from backwards_plan_excludes_parent[OF each nd this] i len \<open>(app, nm) \<in> set b\<close>
    show False by simp
  qed
  have covers: "\<forall>child \<in> set (children nd). fst child = app \<longrightarrow> child \<in> set (concat bps)"
  proof (intro ballI impI)
    fix child assume "child \<in> set (children nd)" "fst child = app"
    then have "child \<in> set cs" by (simp add: cs_def)
    then obtain i where i: "i < length cs" "cs ! i = child" by (auto simp: in_set_conv_nth)
    with cs_children have "cs ! i \<in> set (children nd)" by auto
    from backwards_plan_excludes_parent[OF each[OF i(1)] nd this] i
    have "child \<in> set (bps ! i)" by simp
    with i len show "child \<in> set (concat bps)" by auto
  qed
  from notin assms(1) new(3) have "(app, nm) \<in> applied'" by simp
  with nd bps new notin covers show ?thesis unfolding cs_def by blast
qed

lemma backwards_plan_chain_C: "backwards_plan chain_graph (''x'', ''C'') = Inr [(''x'', ''C'')]"
  by code_simp

lemma plan_target_chain_B:
  "plan_target chain_graph ([], {(''x'', ''A''), (''x'', ''B''), (''x'', ''C'')}) (''x'', Some ''B'')
     = Inr ([(unit_C, True)], {(''x'', ''A''), (''x'', ''B'')})"
  by code_simp

text \<open>
  In the chain A, B, C with all three applied, the plan for the target B rolls back C
  and nothing else: B stays applied.
\<close>

theorem rollback_to_just_after_target_witness:
  "(''x'', ''B'') \<in> {(''x'', ''A''), (''x'', ''B''), (''x'', ''C'')}
   \<and> change_plan chain_executor [(''x'', Some ''B'')] False = Inr [(unit_C, True)]
   \<and> (\<exists>nd bps new.
           node_map chain_graph (''x'', ''B'') = Some nd
         \<and> map (backwards_plan chain_graph) (sort (filter (\<lambda>n. fst n = ''x'') (children nd)))
             = map Inr bps
         \<and> [(unit_C, True)] = [] @ new
         \<and> list_all2 (backward_entry chain_graph)
              (dedup (filter (\<lambda>k. k \<in> {(''x'', ''A''), (''x'', ''B''), (''x'', ''C'')})
                        (concat bps))) new
         \<and> {(''x'', ''A''), (''x'', ''B'')}
             = {(''x'', ''A''), (''x'', ''B''), (''x'', ''C'')} - set (concat bps)
         \<and> (''x'', ''B'') \<notin> set (concat bps)
         \<and> (''x'', ''B'') \<in> {(''x'', ''A''), (''x'', ''B'')}
         \<and> (\<forall>child \<in> set (children nd). fst child = ''x'' \<longrightarrow> child \<in> set (concat bps)))"
proof -
  have h: "(''x'', ''B'') \<in> {(''x'', ''A''), (''x'', ''B''), (''x'', ''C'')}" by simp
  have c: "change_plan chain_executor [(''x'', Some ''B'')] False = Inr [(unit_C, True)]"
    by code_simp
  show ?thesis
    by (rule conjI[OF h conjI[OF c rollback_to_just_after_target[OF h plan_target_chain_B]]])
qed

section \<open>The direction check and the backward run\<close>









lemma full_plan_chain:
  "change_plan chain_executor (leaf_targets chain_executor) True
     = Inr [(unit_A, False), (unit_B, False), (unit_C, False)]"
  by code_simp


text \<open>
  C1.  The backward run is never entered: for the chain A, B, C with all three applied
  and the target B, the plan is the backward entry for C, and \<^verbatim>\<open>change\<close> raises the
  \<open>AttributeError\<close> of \<^verbatim>\<open>self._migrate_all_backwards\<close>, a name \<^verbatim>\<open>ChangeExecutor\<close> does not
  define (the method is \<^verbatim>\<open>_change_all_backwards\<close>); no unit is unapplied and the rows
  are as before.
\<close>

theorem backward_run_attribute_error:
  "change_plan chain_executor [(''x'', Some ''B'')] False = Inr [(unit_C, True)]
   \<and> change chain_executor [(''x'', Some ''B'')] None None False recorded_database
       = (Inl (AttributeError ''_migrate_all_backwards''), recorded_database)"
proof -
  have p: "change_plan chain_executor [(''x'', Some ''B'')] False = Inr [(unit_C, True)]"
    by code_simp
  have "change chain_executor [(''x'', Some ''B'')] None None False recorded_database
       = (Inl (AttributeError ''_migrate_all_backwards''), recorded_database)"
    by (simp add: change_def p full_plan_chain all_forwards_def all_backwards_def
        ChangeExecutor_methods_def)
  with p show ?thesis by (rule conjI)
qed

section \<open>Conflicting heads\<close>

lemma finite_child_edges: "finite (child_edges g)"
proof -
  have "child_edges g \<subseteq> fst ` set g \<times> (\<Union>e \<in> set g. set (children (snd e)))"
  proof
    fix p assume "p \<in> child_edges g"
    then obtain u v n where p: "p = (u, v)" and n: "map_of g u = Some n"
      and v: "v \<in> set (children n)"
      by (auto simp: child_edges_def node_map_def)
    from n have "(u, n) \<in> set g" by (rule map_of_SomeD)
    with v p show "p \<in> fst ` set g \<times> (\<Union>e \<in> set g. set (children (snd e)))"
      by force
  qed
  then show ?thesis by (rule finite_subset) simp
qed

lemma leaf_reachable:
  assumes ac: "acyclic (child_edges g)"
    and cl: "\<forall>(u, v) \<in> child_edges g. node_map g v \<noteq> None"
  shows "node_map g u \<noteq> None \<Longrightarrow>
           \<exists>l. (u, l) \<in> (child_edges g)\<^sup>* \<and> fst l = fst u \<and> l \<in> set (leaf_nodes g None)"
proof -
  define S where "S = {(u, v). (u, v) \<in> child_edges g \<and> fst u = fst v}"
  have sub: "S \<subseteq> child_edges g" by (auto simp: S_def)
  from finite_child_edges sub have "finite S" by (rule rev_finite_subset)
  moreover from ac sub have "acyclic S" by (rule acyclic_subset)
  ultimately have "wf (S\<inverse>)" by (rule finite_acyclic_wf_converse)
  then show "node_map g u \<noteq> None \<Longrightarrow>
           \<exists>l. (u, l) \<in> (child_edges g)\<^sup>* \<and> fst l = fst u \<and> l \<in> set (leaf_nodes g None)"
  proof (induction u rule: wf_induct_rule)
    case (less u)
    from less.prems obtain n where n: "node_map g u = Some n" by auto
    show ?case
    proof (cases "\<exists>c \<in> set (children n). fst c = fst u")
      case False
      with n have "u \<in> set (leaf_nodes g None)" by (auto simp: leaf_nodes_member)
      then have "(u, u) \<in> (child_edges g)\<^sup>* \<and> fst u = fst u \<and> u \<in> set (leaf_nodes g None)"
        by simp
      then show ?thesis by (rule exI)
    next
      case True
      then obtain c where c: "c \<in> set (children n)" "fst c = fst u" by blast
      with n have e: "(u, c) \<in> child_edges g" by (auto simp: child_edges_def)
      with c have "(c, u) \<in> S\<inverse>" by (simp add: S_def)
      moreover from e cl have "node_map g c \<noteq> None" by blast
      ultimately obtain l where l: "(c, l) \<in> (child_edges g)\<^sup>*" "fst l = fst c"
        "l \<in> set (leaf_nodes g None)"
        using less.IH by blast
      from e l(1) have "(u, l) \<in> (child_edges g)\<^sup>*" by (rule converse_rtrancl_into_rtrancl)
      with l c have "(u, l) \<in> (child_edges g)\<^sup>* \<and> fst l = fst u \<and> l \<in> set (leaf_nodes g None)"
        by simp
      then show ?thesis by (rule exI)
    qed
  qed
qed

lemma unrelated_units_conflict:
  assumes ac: "acyclic (child_edges (graph l))"
    and cl: "\<forall>(u, v) \<in> child_edges (graph l). node_map (graph l) v \<noteq> None"
    and n: "node_map (graph l) (a, n) \<noteq> None" and m: "node_map (graph l) (a, m) \<noteq> None"
    and nm: "((a, n), (a, m)) \<notin> (child_edges (graph l))\<^sup>*"
    and mn: "((a, m), (a, n)) \<notin> (child_edges (graph l))\<^sup>*"
    and both: "\<not> (\<exists>u. ((a, n), u) \<in> (child_edges (graph l))\<^sup>+
                     \<and> ((a, m), u) \<in> (child_edges (graph l))\<^sup>+)"
  shows "a \<in> dom (detect_conflicts l)"
proof -
  from leaf_reachable[OF ac cl n] obtain p where p: "((a, n), p) \<in> (child_edges (graph l))\<^sup>*"
    "fst p = a" "p \<in> set (leaf_nodes (graph l) None)"
    by auto
  from leaf_reachable[OF ac cl m] obtain q where q: "((a, m), q) \<in> (child_edges (graph l))\<^sup>*"
    "fst q = a" "q \<in> set (leaf_nodes (graph l) None)"
    by auto
  have "p \<noteq> q"
  proof
    assume eq: "p = q"
    show False
    proof (cases "p = (a, n)")
      case True
      with eq q(1) mn show False by simp
    next
      case False
      with p(1) have pn: "((a, n), p) \<in> (child_edges (graph l))\<^sup>+"
        by (metis rtranclD)
      show False
      proof (cases "q = (a, m)")
        case True
        with eq p(1) nm show False by simp
      next
        case False
        with q(1) have "((a, m), q) \<in> (child_edges (graph l))\<^sup>+"
          by (metis rtranclD)
        with pn eq both show False by blast
      qed
    qed
  qed
  with p(2) q(2) have "snd p \<noteq> snd q" by (auto simp: prod_eq_iff)
  moreover from p(2,3) q(2,3) have "(a, snd p) \<in> set (leaf_nodes (graph l) None)"
    "(a, snd q) \<in> set (leaf_nodes (graph l) None)"
    by (metis prod.collapse)+
  ultimately have "\<exists>x y. x \<noteq> y \<and> x \<in> {n. (a, n) \<in> set (leaf_nodes (graph l) None)}
                 \<and> y \<in> {n. (a, n) \<in> set (leaf_nodes (graph l) None)}"
    by blast
  then have "1 < card {n. (a, n) \<in> set (leaf_nodes (graph l) None)}"
    using card_gt_1_iff[OF finite_names[of a "leaf_nodes (graph l) None"]] by simp
  then show ?thesis
    using detect_conflicts_eq[of l a] by (simp add: dom_def)
qed

text \<open>
  C7, as amended.  \<^verbatim>\<open>detect_conflicts\<close> maps exactly the labels with more than one leaf
  node, each to the set of all its leaf names; the result is empty exactly when every
  label has at most one leaf.  Two different units of one label neither of which has a
  child of that label make the label appear; and so do, in an acyclic graph whose child
  keys are all nodes, two units of one label with no dependency path between them and
  no unit depending on both, directly or through other units.
\<close>

theorem detect_conflicts_multiple_leaves:
  "detect_conflicts l a
     = (if 1 < card {n. (a, n) \<in> set (leaf_nodes (graph l) None)}
        then Some {n. (a, n) \<in> set (leaf_nodes (graph l) None)} else None)
   \<and> (detect_conflicts l = Map.empty
        \<longleftrightarrow> (\<forall>b. card {n. (b, n) \<in> set (leaf_nodes (graph l) None)} \<le> 1))
   \<and> (n \<noteq> m
        \<and> node_map (graph l) (a, n) = Some x \<and> (\<forall>c \<in> set (children x). fst c \<noteq> a)
        \<and> node_map (graph l) (a, m) = Some y \<and> (\<forall>c \<in> set (children y). fst c \<noteq> a)
        \<longrightarrow> a \<in> dom (detect_conflicts l))
   \<and> (acyclic (child_edges (graph l))
        \<and> (\<forall>(u, v) \<in> child_edges (graph l). node_map (graph l) v \<noteq> None)
        \<and> node_map (graph l) (a, n) \<noteq> None \<and> node_map (graph l) (a, m) \<noteq> None
        \<and> ((a, n), (a, m)) \<notin> (child_edges (graph l))\<^sup>*
        \<and> ((a, m), (a, n)) \<notin> (child_edges (graph l))\<^sup>*
        \<and> \<not> (\<exists>u. ((a, n), u) \<in> (child_edges (graph l))\<^sup>+
                  \<and> ((a, m), u) \<in> (child_edges (graph l))\<^sup>+)
        \<longrightarrow> a \<in> dom (detect_conflicts l))"
proof (intro conjI impI)
  show "detect_conflicts l a
     = (if 1 < card {n. (a, n) \<in> set (leaf_nodes (graph l) None)}
        then Some {n. (a, n) \<in> set (leaf_nodes (graph l) None)} else None)"
    by (rule detect_conflicts_eq)
  show "detect_conflicts l = Map.empty
        \<longleftrightarrow> (\<forall>b. card {n. (b, n) \<in> set (leaf_nodes (graph l) None)} \<le> 1)"
  proof
    assume e: "detect_conflicts l = Map.empty"
    show "\<forall>b. card {n. (b, n) \<in> set (leaf_nodes (graph l) None)} \<le> 1"
    proof
      fix b
      from e have "detect_conflicts l b = None" by simp
      then show "card {n. (b, n) \<in> set (leaf_nodes (graph l) None)} \<le> 1"
        unfolding detect_conflicts_eq[of l b] by (simp split: if_splits)
    qed
  next
    assume "\<forall>b. card {n. (b, n) \<in> set (leaf_nodes (graph l) None)} \<le> 1"
    then have "detect_conflicts l b = None" for b
      unfolding detect_conflicts_eq[of l b] by (simp add: not_less[symmetric])
    then show "detect_conflicts l = Map.empty" by (simp add: fun_eq_iff)
  qed
next
  assume h: "n \<noteq> m
        \<and> node_map (graph l) (a, n) = Some x \<and> (\<forall>c \<in> set (children x). fst c \<noteq> a)
        \<and> node_map (graph l) (a, m) = Some y \<and> (\<forall>c \<in> set (children y). fst c \<noteq> a)"
  then have "(a, n) \<in> set (leaf_nodes (graph l) None)" "(a, m) \<in> set (leaf_nodes (graph l) None)"
    by (simp_all add: leaf_nodes_member)
  with h have "\<exists>p q. p \<noteq> q \<and> p \<in> {n. (a, n) \<in> set (leaf_nodes (graph l) None)}
                 \<and> q \<in> {n. (a, n) \<in> set (leaf_nodes (graph l) None)}"
    by blast
  then have "1 < card {n. (a, n) \<in> set (leaf_nodes (graph l) None)}"
    using card_gt_1_iff[OF finite_names[of a "leaf_nodes (graph l) None"]] by simp
  then show "a \<in> dom (detect_conflicts l)"
    using detect_conflicts_eq[of l a] by (simp add: dom_def)
next
  assume "acyclic (child_edges (graph l))
        \<and> (\<forall>(u, v) \<in> child_edges (graph l). node_map (graph l) v \<noteq> None)
        \<and> node_map (graph l) (a, n) \<noteq> None \<and> node_map (graph l) (a, m) \<noteq> None
        \<and> ((a, n), (a, m)) \<notin> (child_edges (graph l))\<^sup>*
        \<and> ((a, m), (a, n)) \<notin> (child_edges (graph l))\<^sup>*
        \<and> \<not> (\<exists>u. ((a, n), u) \<in> (child_edges (graph l))\<^sup>+
                  \<and> ((a, m), u) \<in> (child_edges (graph l))\<^sup>+)"
  then show "a \<in> dom (detect_conflicts l)"
    using unrelated_units_conflict[of l a n m] by blast
qed

lemma child_edges_heads:
  "child_edges heads_graph
     = {((''x'', ''A''), (''x'', ''B'')), ((''x'', ''A''), (''x'', ''C''))}"
  by (auto simp: child_edges_def node_map_def heads_graph_def split: if_splits)

lemma no_edge_no_path: "(u, v) \<in> R\<^sup>* \<Longrightarrow> u \<notin> Domain R \<Longrightarrow> v = u"
  by (erule converse_rtranclE) auto

lemma no_edge_no_trancl: "(u, v) \<in> R\<^sup>+ \<Longrightarrow> u \<in> Domain R"
  by (auto dest: tranclD)

text \<open>Two heads B and C over A.\<close>

theorem detect_conflicts_multiple_leaves_witness:
  "acyclic (child_edges (graph heads_loader))
   \<and> child_edges (graph heads_loader)
       = {((''x'', ''A''), (''x'', ''B'')), ((''x'', ''A''), (''x'', ''C''))}
   \<and> node_map (graph heads_loader) (''x'', ''B'') \<noteq> None
   \<and> node_map (graph heads_loader) (''x'', ''C'') \<noteq> None
   \<and> ((''x'', ''B''), (''x'', ''C'')) \<notin> (child_edges (graph heads_loader))\<^sup>*
   \<and> ((''x'', ''C''), (''x'', ''B'')) \<notin> (child_edges (graph heads_loader))\<^sup>*
   \<and> \<not> (\<exists>u. ((''x'', ''B''), u) \<in> (child_edges (graph heads_loader))\<^sup>+
             \<and> ((''x'', ''C''), u) \<in> (child_edges (graph heads_loader))\<^sup>+)
   \<and> ''x'' \<in> dom (detect_conflicts heads_loader)"
proof -
  have g: "graph heads_loader = heads_graph" by (simp add: heads_loader_def)
  have ac: "acyclic (child_edges (graph heads_loader))"
    unfolding g child_edges_heads
    by (rule acyclicI_order[where f = "\<lambda>k. if k = (''x'', ''A'') then 1 else (0::nat)"]) auto
  have cl: "\<forall>(u, v) \<in> child_edges (graph heads_loader). node_map (graph heads_loader) v \<noteq> None"
    unfolding g child_edges_heads by (simp add: node_map_def heads_graph_def)
  have b: "node_map (graph heads_loader) (''x'', ''B'') \<noteq> None"
    and c: "node_map (graph heads_loader) (''x'', ''C'') \<noteq> None"
    unfolding g by (simp_all add: node_map_def heads_graph_def)
  have db: "(''x'', ''B'') \<notin> Domain (child_edges (graph heads_loader))"
    and dc: "(''x'', ''C'') \<notin> Domain (child_edges (graph heads_loader))"
    unfolding g child_edges_heads by simp_all
  have bc: "((''x'', ''B''), (''x'', ''C'')) \<notin> (child_edges (graph heads_loader))\<^sup>*"
    using no_edge_no_path[OF _ db, of "(''x'', ''C'')"] by auto
  have cb: "((''x'', ''C''), (''x'', ''B'')) \<notin> (child_edges (graph heads_loader))\<^sup>*"
    using no_edge_no_path[OF _ dc, of "(''x'', ''B'')"] by auto
  have both: "\<not> (\<exists>u. ((''x'', ''B''), u) \<in> (child_edges (graph heads_loader))\<^sup>+
             \<and> ((''x'', ''C''), u) \<in> (child_edges (graph heads_loader))\<^sup>+)"
    using no_edge_no_trancl[of "(''x'', ''B'')" _ "child_edges (graph heads_loader)"] db by blast
  have h: "acyclic (child_edges (graph heads_loader))
        \<and> (\<forall>(u, v) \<in> child_edges (graph heads_loader). node_map (graph heads_loader) v \<noteq> None)
        \<and> node_map (graph heads_loader) (''x'', ''B'') \<noteq> None
        \<and> node_map (graph heads_loader) (''x'', ''C'') \<noteq> None
        \<and> ((''x'', ''B''), (''x'', ''C'')) \<notin> (child_edges (graph heads_loader))\<^sup>*
        \<and> ((''x'', ''C''), (''x'', ''B'')) \<notin> (child_edges (graph heads_loader))\<^sup>*
        \<and> \<not> (\<exists>u. ((''x'', ''B''), u) \<in> (child_edges (graph heads_loader))\<^sup>+
                  \<and> ((''x'', ''C''), u) \<in> (child_edges (graph heads_loader))\<^sup>+)"
    by (intro conjI ac cl b c bc cb both)
  have h3: "''B'' \<noteq> ''C''
        \<and> node_map (graph heads_loader) (''x'', ''B'')
            = Some \<lparr>node_change = unit_B, parents = [(''x'', ''A'')], children = []\<rparr>
        \<and> (\<forall>c \<in> set (children \<lparr>node_change = unit_B, parents = [(''x'', ''A'')],
                                   children = []\<rparr>). fst c \<noteq> ''x'')
        \<and> node_map (graph heads_loader) (''x'', ''C'')
            = Some \<lparr>node_change = unit_C\<lparr>dependencies := [(''x'', ''A'')]\<rparr>,
                    parents = [(''x'', ''A'')], children = []\<rparr>
        \<and> (\<forall>c \<in> set (children \<lparr>node_change = unit_C\<lparr>dependencies := [(''x'', ''A'')]\<rparr>,
                                   parents = [(''x'', ''A'')], children = []\<rparr>). fst c \<noteq> ''x'')"
    unfolding g by (simp add: node_map_def heads_graph_def)
  note t = detect_conflicts_multiple_leaves[of heads_loader "''x''" "''B''" "''C''"
      "\<lparr>node_change = unit_B, parents = [(''x'', ''A'')], children = []\<rparr>"
      "\<lparr>node_change = unit_C\<lparr>dependencies := [(''x'', ''A'')]\<rparr>,
        parents = [(''x'', ''A'')], children = []\<rparr>"]
  have "''x'' \<in> dom (detect_conflicts heads_loader)"
    by (rule mp[OF conjunct2[OF conjunct2[OF conjunct2[OF t]]] h])
  moreover have "''x'' \<in> dom (detect_conflicts heads_loader)"
    by (rule mp[OF conjunct1[OF conjunct2[OF conjunct2[OF t]]] h3])
  ultimately have r: "''x'' \<in> dom (detect_conflicts heads_loader)" by simp
  have e: "child_edges (graph heads_loader)
       = {((''x'', ''A''), (''x'', ''B'')), ((''x'', ''A''), (''x'', ''C''))}"
    unfolding g by (rule child_edges_heads)
  show ?thesis by (intro conjI ac e b c bc cb both r)
qed

lemma leaf_nodes_chain: "leaf_nodes chain_graph None = [(''x'', ''C'')]"
  by code_simp

text \<open>
  C7 as stated fails in its last sentence: in the chain A, B, C of the label \<open>x\<close>, the
  units A and C have no edge between them, and no unit depends on both (B depends on
  A alone, C on B alone); the only leaf is C, and \<open>x\<close> is not reported.
\<close>

theorem detect_conflicts_counterexample:
  "map (\<lambda>(k, n). (k, parents n, children n)) (graph chain_loader)
     = [((''x'', ''A''), [], [(''x'', ''B'')]),
        ((''x'', ''B''), [(''x'', ''A'')], [(''x'', ''C'')]),
        ((''x'', ''C''), [(''x'', ''B'')], [])]
   \<and> detect_conflicts chain_loader ''x'' = None"
  by (simp add: detect_conflicts_def chain_loader_def leaf_nodes_chain) (simp add: chain_graph_def)

end
